theory Spec2Isabelle
  imports Main "HOL-Library.Word"
begin

unbundle bit_operations_syntax

section \<open>Machine integers, bytes and errors\<close>

type_synonym byte = "8 word"
type_synonym uint32 = "32 word"
type_synonym uint64 = "64 word"

text \<open>A Go \<open>int64\<close> is a 64-bit word read with \<open>sint\<close>; the conversions
  \<open>uint64(x)\<close> and \<open>int64(x)\<close> between the two keep the bits.\<close>

type_synonym int64 = "64 word"

text \<open>The errors the two components can hand to their caller: the sentinel \<open>io.EOF\<close>,
  the sentinel \<open>io.ErrShortWrite\<close> of the buffered writer, an error of the operating
  system (identified by a number), and a run-time panic (slice bounds out of range,
  allocation too large), which is not a returned error but ends the call all the same.\<close>

datatype error = EOF | ErrShortWrite | OSError nat | Panic

definition EBADF :: nat where "EBADF = 9"
definition EINVAL :: nat where "EINVAL = 22"
definition ENOENT :: nat where "ENOENT = 2"

subsection \<open>The shared encoding: \<open>enc = binary.BigEndian\<close>\<close>

definition PutUint32 :: "uint32 \<Rightarrow> byte list" where
  "PutUint32 v = [ucast (drop_bit 24 v), ucast (drop_bit 16 v), ucast (drop_bit 8 v), ucast v]"

definition Uint32 :: "byte list \<Rightarrow> uint32" where
  "Uint32 b = ucast (b ! 3) OR push_bit 8 (ucast (b ! 2)) OR push_bit 16 (ucast (b ! 1))
               OR push_bit 24 (ucast (b ! 0))"

definition PutUint64 :: "uint64 \<Rightarrow> byte list" where
  "PutUint64 v = [ucast (drop_bit 56 v), ucast (drop_bit 48 v), ucast (drop_bit 40 v),
                  ucast (drop_bit 32 v), ucast (drop_bit 24 v), ucast (drop_bit 16 v),
                  ucast (drop_bit 8 v), ucast v]"

definition Uint64 :: "byte list \<Rightarrow> uint64" where
  "Uint64 b = ucast (b ! 7) OR push_bit 8 (ucast (b ! 6)) OR push_bit 16 (ucast (b ! 5))
               OR push_bit 24 (ucast (b ! 4)) OR push_bit 32 (ucast (b ! 3))
               OR push_bit 40 (ucast (b ! 2)) OR push_bit 48 (ucast (b ! 1))
               OR push_bit 56 (ucast (b ! 0))"

text \<open>Go's slice expressions \<open>xs[lo:hi]\<close>, for reading and as the target of a write of
  \<open>hi - lo\<close> bytes. Both panic unless \<open>lo \<le> hi \<le> len(xs)\<close>.\<close>

definition slice :: "byte list \<Rightarrow> uint64 \<Rightarrow> uint64 \<Rightarrow> error + byte list" where
  "slice xs lo hi =
     (if unat lo \<le> unat hi \<and> unat hi \<le> length xs
      then Inr (take (unat hi - unat lo) (drop (unat lo) xs))
      else Inl Panic)"

definition put_slice :: "byte list \<Rightarrow> uint64 \<Rightarrow> uint64 \<Rightarrow> byte list \<Rightarrow> error + byte list" where
  "put_slice xs lo hi bs =
     (if unat lo \<le> unat hi \<and> unat hi \<le> length xs
      then Inr (take (unat lo) xs @ bs @ drop (unat hi) xs)
      else Inl Panic)"

section \<open>The operating system: files, system calls and their failures\<close>

text \<open>The code reaches the outside world through system calls only. The world holds the
  contents of every file by path, the write position of the open handle on it (a handle
  opened with \<open>O_APPEND\<close> writes at the end of the file, any other at its current offset),
  a schedule with the outcome of each system call still to come (an exhausted schedule
  means success), and the trace of the calls made so far. A scheduled failure carries the
  error number and, for a write, the number of bytes that still reached the file.\<close>

datatype position = AtEnd | At nat

datatype outcome = Succeeds | Fails nat nat

datatype syscall =
    SysStat string
  | SysTruncate string int
  | SysMmap string
  | SysMsync string
  | SysFsync string
  | SysFtruncate string int
  | SysClose string
  | SysWrite string nat
  | SysPread string nat nat

record world =
  files :: "string \<Rightarrow> byte list option"
  offsets :: "string \<Rightarrow> position"
  sched :: "outcome list"
  trace :: "syscall list"

definition sys :: "syscall \<Rightarrow> world \<Rightarrow> outcome \<times> world" where
  "sys c w =
     (case sched w of
        [] \<Rightarrow> (Succeeds, w\<lparr>trace := trace w @ [c]\<rparr>)
      | r # rs \<Rightarrow> (r, w\<lparr>sched := rs, trace := trace w @ [c]\<rparr>))"

text \<open>\<open>os.Stat(name)\<close>, of which the code only uses \<open>Size()\<close>.\<close>

definition os_Stat :: "string \<Rightarrow> world \<Rightarrow> (error + nat) \<times> world" where
  "os_Stat name w =
     (case sys (SysStat name) w of
        (Fails e k, w1) \<Rightarrow> (Inl (OSError e), w1)
      | (Succeeds, w1) \<Rightarrow>
          (case files w1 name of
             None \<Rightarrow> (Inl (OSError ENOENT), w1)
           | Some d \<Rightarrow> (Inr (length d), w1)))"

text \<open>Truncation sets the length of a file: it cuts the file or pads it with zero bytes.\<close>

definition resize :: "nat \<Rightarrow> byte list \<Rightarrow> byte list" where
  "resize n d = take n d @ replicate (n - length d) 0"

definition set_length :: "string \<Rightarrow> int \<Rightarrow> world \<Rightarrow> error option \<times> world" where
  "set_length name n w =
     (if n < 0 then (Some (OSError EINVAL), w)
      else case files w name of
             None \<Rightarrow> (Some (OSError ENOENT), w)
           | Some d \<Rightarrow> (None, w\<lparr>files := (files w)(name \<mapsto> resize (nat n) d)\<rparr>))"

text \<open>\<open>os.Truncate(name, n)\<close> and \<open>f.Truncate(n)\<close>.\<close>

definition os_Truncate :: "string \<Rightarrow> int \<Rightarrow> world \<Rightarrow> error option \<times> world" where
  "os_Truncate name n w =
     (case sys (SysTruncate name n) w of
        (Fails e k, w1) \<Rightarrow> (Some (OSError e), w1)
      | (Succeeds, w1) \<Rightarrow> set_length name n w1)"

definition File_Truncate :: "string \<Rightarrow> int \<Rightarrow> world \<Rightarrow> error option \<times> world" where
  "File_Truncate f n w =
     (case sys (SysFtruncate f n) w of
        (Fails e k, w1) \<Rightarrow> (Some (OSError e), w1)
      | (Succeeds, w1) \<Rightarrow> set_length f n w1)"

text \<open>\<open>f.Sync()\<close> and \<open>f.Close()\<close> change no file contents.\<close>

definition File_Sync :: "string \<Rightarrow> world \<Rightarrow> error option \<times> world" where
  "File_Sync f w =
     (case sys (SysFsync f) w of
        (Fails e k, w1) \<Rightarrow> (Some (OSError e), w1)
      | (Succeeds, w1) \<Rightarrow> (None, w1))"

definition File_Close :: "string \<Rightarrow> world \<Rightarrow> error option \<times> world" where
  "File_Close f w =
     (case sys (SysClose f) w of
        (Fails e k, w1) \<Rightarrow> (Some (OSError e), w1)
      | (Succeeds, w1) \<Rightarrow> (None, w1))"

text \<open>\<open>gommap.Map(fd, PROT_READ|PROT_WRITE, MAP_SHARED)\<close> maps the whole file, at its
  current length; the kernel refuses a mapping of length zero.\<close>

definition gommap_Map :: "string \<Rightarrow> world \<Rightarrow> (error + byte list) \<times> world" where
  "gommap_Map f w =
     (case sys (SysMmap f) w of
        (Fails e k, w1) \<Rightarrow> (Inl (OSError e), w1)
      | (Succeeds, w1) \<Rightarrow>
          (case files w1 f of
             None \<Rightarrow> (Inl (OSError EBADF), w1)
           | Some d \<Rightarrow> if d = [] then (Inl (OSError EINVAL), w1) else (Inr d, w1)))"

text \<open>\<open>mmap.Sync(MS_SYNC)\<close> writes the mapped bytes back to the file they map.\<close>

definition gommap_Sync :: "string \<Rightarrow> byte list \<Rightarrow> world \<Rightarrow> error option \<times> world" where
  "gommap_Sync f m w =
     (case sys (SysMsync f) w of
        (Fails e k, w1) \<Rightarrow> (Some (OSError e), w1)
      | (Succeeds, w1) \<Rightarrow>
          (case files w1 f of
             None \<Rightarrow> (None, w1)
           | Some d \<Rightarrow>
               (None, w1\<lparr>files := (files w1)(f \<mapsto> take (length d) m @ drop (length m) d)\<rparr>)))"

section \<open>The index (\<open>internal/log/index.go\<close>)\<close>

definition offWidth :: uint64 where "offWidth = 4"
definition posWidth :: uint64 where "posWidth = 8"
definition totWidth :: uint64 where "totWidth = offWidth + posWidth"

text \<open>The struct \<open>index\<close>: the file (by its path), the mapped region and the size.\<close>

record index =
  idx_file :: string
  idx_mmap :: "byte list"
  idx_size :: uint64

text \<open>\<open>newIndex(f, c)\<close>. Of the configuration \<open>c\<close>, whose type \<open>Config\<close> is declared
  elsewhere in the package, only the field \<open>c.Segment.MaxIndexBytes\<close> is read; it is a
  parameter here, an unsigned 64-bit value that the code converts with \<open>int64(...)\<close>.\<close>

definition newIndex :: "string \<Rightarrow> uint64 \<Rightarrow> world \<Rightarrow> (error + index) \<times> world" where
  "newIndex f MaxIndexBytes w =
     (case os_Stat f w of
        (Inl e, w1) \<Rightarrow> (Inl e, w1)
      | (Inr sz, w1) \<Rightarrow>
          (case os_Truncate f (sint MaxIndexBytes) w1 of
             (Some e, w2) \<Rightarrow> (Inl e, w2)
           | (None, w2) \<Rightarrow>
               (case gommap_Map f w2 of
                  (Inl e, w3) \<Rightarrow> (Inl e, w3)
                | (Inr m, w3) \<Rightarrow>
                    (Inr \<lparr>idx_file = f, idx_mmap = m, idx_size = of_nat sz\<rparr>, w3))))"

text \<open>\<open>(*index).Close\<close>. A failing \<open>Truncate\<close> returns \<open>nil\<close>, as the source has it.\<close>

definition index_Close :: "index \<Rightarrow> world \<Rightarrow> error option \<times> world" where
  "index_Close i w =
     (case gommap_Sync (idx_file i) (idx_mmap i) w of
        (Some e, w1) \<Rightarrow> (Some e, w1)
      | (None, w1) \<Rightarrow>
          (case File_Sync (idx_file i) w1 of
             (Some e, w2) \<Rightarrow> (Some e, w2)
           | (None, w2) \<Rightarrow>
               (case File_Truncate (idx_file i) (sint (idx_size i)) w2 of
                  (Some e, w3) \<Rightarrow> (None, w3)
                | (None, w3) \<Rightarrow> File_Close (idx_file i) w3)))"

text \<open>\<open>(*index).Read\<close>; the parameter \<open>in\<close> of the source is \<open>inp\<close> here.\<close>

definition index_Read :: "index \<Rightarrow> int64 \<Rightarrow> error + (uint32 \<times> uint64)" where
  "index_Read i inp =
     (if idx_size i = 0 then Inl EOF
      else
        let out = (if inp = - 1 then ucast (idx_size i div totWidth - 1) else ucast inp) :: uint32;
            pos = (ucast out :: uint64) * totWidth
        in if idx_size i < pos + totWidth then Inl EOF
           else case slice (idx_mmap i) pos (pos + offWidth) of
                  Inl e \<Rightarrow> Inl e
                | Inr b1 \<Rightarrow>
                    (case slice (idx_mmap i) (pos + offWidth) (pos + totWidth) of
                       Inl e \<Rightarrow> Inl e
                     | Inr b2 \<Rightarrow> Inr (Uint32 b1, Uint64 b2)))"

text \<open>\<open>(*index).Write\<close>.\<close>

definition index_Write :: "index \<Rightarrow> uint32 \<Rightarrow> uint64 \<Rightarrow> error option \<times> index" where
  "index_Write i off pos =
     (if of_nat (length (idx_mmap i)) < idx_size i + totWidth then (Some EOF, i)
      else case put_slice (idx_mmap i) (idx_size i) (idx_size i + offWidth) (PutUint32 off) of
             Inl e \<Rightarrow> (Some e, i)
           | Inr m1 \<Rightarrow>
               (case put_slice m1 (idx_size i + offWidth) (idx_size i + totWidth) (PutUint64 pos) of
                  Inl e \<Rightarrow> (Some e, i\<lparr>idx_mmap := m1\<rparr>)
                | Inr m2 \<Rightarrow> (None, i\<lparr>idx_mmap := m2, idx_size := idx_size i + totWidth\<rparr>)))"

text \<open>\<open>(*index).Name\<close>.\<close>

definition index_Name :: "index \<Rightarrow> string" where
  "index_Name i = idx_file i"

text \<open>The loop of \<open>TestIndex\<close>: the entries are written in order, and the first failing
  write ends it.\<close>

fun write_all :: "index \<Rightarrow> (uint32 \<times> uint64) list \<Rightarrow> error option \<times> index" where
  "write_all i [] = (None, i)"
| "write_all i ((off, pos) # es) =
     (case index_Write i off pos of
        (Some e, i') \<Rightarrow> (Some e, i')
      | (None, i') \<Rightarrow> write_all i' es)"

section \<open>The store (the type \<open>store\<close> of package \<open>log\<close>)\<close>

subsection \<open>File reads and writes\<close>

text \<open>What \<open>write(2)\<close> does to the contents \<open>d\<close> of a file: a handle opened with \<open>O_APPEND\<close>
  adds the bytes at the end; any other handle puts them at its offset, over the bytes that
  are there, after filling a gap beyond the end with zero bytes. The offset then moves
  past the bytes written.\<close>

fun write_at :: "position \<Rightarrow> byte list \<Rightarrow> byte list \<Rightarrow> byte list" where
  "write_at AtEnd d b = d @ b"
| "write_at (At k) d b =
     (if b = [] then d
      else take k d @ replicate (k - length d) 0 @ b @ drop (k + length b) d)"

fun advance :: "position \<Rightarrow> nat \<Rightarrow> position" where
  "advance AtEnd n = AtEnd"
| "advance (At k) n = At (k + n)"

text \<open>\<open>f.Write(b)\<close>: the bytes go where the handle writes. It returns the number of bytes
  written and the error; a failing call may still have written a prefix of \<open>b\<close>.\<close>

definition File_Write :: "string \<Rightarrow> byte list \<Rightarrow> world \<Rightarrow> (nat \<times> error option) \<times> world" where
  "File_Write f b w =
     (case sys (SysWrite f (length b)) w of
        (Fails e k, w1) \<Rightarrow>
          (case files w1 f of
             None \<Rightarrow> ((0, Some (OSError e)), w1)
           | Some d \<Rightarrow>
               ((min k (length b), Some (OSError e)),
                w1\<lparr>files := (files w1)(f \<mapsto> write_at (offsets w1 f) d (take k b)),
                    offsets := (offsets w1)(f := advance (offsets w1 f) (min k (length b)))\<rparr>))
      | (Succeeds, w1) \<Rightarrow>
          (case files w1 f of
             None \<Rightarrow> ((0, Some (OSError EBADF)), w1)
           | Some d \<Rightarrow>
               ((length b, None),
                w1\<lparr>files := (files w1)(f \<mapsto> write_at (offsets w1 f) d b),
                    offsets := (offsets w1)(f := advance (offsets w1 f) (length b))\<rparr>)))"

text \<open>\<open>f.ReadAt(b, off)\<close> with \<open>n = len(b)\<close>: the bytes read and the error. A negative
  offset is refused, an empty buffer reads nothing, and a short read is \<open>io.EOF\<close>. It
  reads with \<open>pread(2)\<close>, which neither uses nor moves the offset of the handle.\<close>

definition File_ReadAt :: "string \<Rightarrow> nat \<Rightarrow> int \<Rightarrow> world \<Rightarrow> (byte list \<times> error option) \<times> world" where
  "File_ReadAt f n off w =
     (if off < 0 then (([], Some (OSError EINVAL)), w)
      else if n = 0 then (([], None), w)
      else case sys (SysPread f n (nat off)) w of
             (Fails e k, w1) \<Rightarrow> (([], Some (OSError e)), w1)
           | (Succeeds, w1) \<Rightarrow>
               (case files w1 f of
                  None \<Rightarrow> (([], Some (OSError EBADF)), w1)
                | Some d \<Rightarrow>
                    (let got = take n (drop (nat off) d)
                     in ((got, if length got < n then Some EOF else None), w1))))"

subsection \<open>The buffered writer \<open>bufio.Writer\<close>\<close>

text \<open>The writer holds the file it writes to, the bytes buffered so far
  (\<open>b.buf[0:b.n]\<close>) and its sticky error.\<close>

record Writer =
  wr :: string
  wbuf :: "byte list"
  werr :: "error option"

definition defaultBufSize :: nat where "defaultBufSize = 4096"

definition NewWriter :: "string \<Rightarrow> Writer" where
  "NewWriter f = \<lparr>wr = f, wbuf = [], werr = None\<rparr>"

definition Available :: "Writer \<Rightarrow> nat" where
  "Available b = defaultBufSize - length (wbuf b)"

definition Buffered :: "Writer \<Rightarrow> nat" where
  "Buffered b = length (wbuf b)"

definition Flush :: "Writer \<Rightarrow> world \<Rightarrow> error option \<times> Writer \<times> world" where
  "Flush b w =
     (case werr b of
        Some e \<Rightarrow> (Some e, b, w)
      | None \<Rightarrow>
          if Buffered b = 0 then (None, b, w)
          else case File_Write (wr b) (wbuf b) w of
                 ((n, err), w1) \<Rightarrow>
                   (case (if n < Buffered b \<and> err = None then Some ErrShortWrite else err) of
                      Some e \<Rightarrow> (Some e, b\<lparr>wbuf := drop n (wbuf b), werr := Some e\<rparr>, w1)
                    | None \<Rightarrow> (None, b\<lparr>wbuf := []\<rparr>, w1)))"

text \<open>\<open>(*Writer).Write(p)\<close>: the loop runs while \<open>p\<close> does not fit into the buffer and no
  error has occurred; \<open>nn\<close> counts the bytes taken from \<open>p\<close>.\<close>

function bufio_Write :: "Writer \<Rightarrow> byte list \<Rightarrow> nat \<Rightarrow> world \<Rightarrow> (nat \<times> error option) \<times> Writer \<times> world" where
  "bufio_Write b p nn w =
     (if length p > Available b \<and> werr b = None then
        (if Buffered b = 0 then
           (case File_Write (wr b) p w of
              ((n, err), w1) \<Rightarrow> bufio_Write (b\<lparr>werr := err\<rparr>) (drop n p) (nn + n) w1)
         else
           (case Flush (b\<lparr>wbuf := wbuf b @ take (Available b) p\<rparr>) w of
              (err, b1, w1) \<Rightarrow> bufio_Write b1 (drop (Available b) p) (nn + Available b) w1))
      else
        (case werr b of
           Some e \<Rightarrow> ((nn, Some e), b, w)
         | None \<Rightarrow> ((nn + length p, None), b\<lparr>wbuf := wbuf b @ p\<rparr>, w)))"
  by pat_completeness auto
termination
  apply (relation "measure (\<lambda>(b, p, nn, w).
         case werr b of Some e \<Rightarrow> 0 | None \<Rightarrow> 1 + 2 * length p + (if wbuf b = [] then 0 else 1))")
    apply simp
   apply (auto simp: File_Write_def sys_def Buffered_def Available_def
          split: list.splits outcome.splits option.splits if_splits)[1]
  apply (auto simp: Flush_def File_Write_def sys_def Buffered_def Available_def
          split: list.splits outcome.splits option.splits if_splits prod.splits)[1]
  done

declare bufio_Write.simps [simp del]

text \<open>\<open>binary.Write(w, enc, v)\<close> for a \<open>uint64\<close>: its eight bytes in one \<open>Write\<close>.\<close>

definition binary_Write :: "Writer \<Rightarrow> uint64 \<Rightarrow> world \<Rightarrow> error option \<times> Writer \<times> world" where
  "binary_Write b v w =
     (case bufio_Write b (PutUint64 v) 0 w of ((n, err), b1, w1) \<Rightarrow> (err, b1, w1))"

subsection \<open>The store\<close>

definition lenWidth :: nat where "lenWidth = 8"

text \<open>The largest allocation the Go run time accepts (64-bit Linux); \<open>make([]byte, n)\<close>
  panics beyond it.\<close>

definition maxAlloc :: nat where "maxAlloc = 2 ^ 48"

text \<open>The struct \<open>store\<close>: the embedded file (by its path), the buffered writer and the
  size. The mutex serialises the calls; each call below is one critical section.\<close>

record store =
  st_file :: string
  st_buf :: Writer
  st_size :: uint64

definition newStore :: "string \<Rightarrow> world \<Rightarrow> (error + store) \<times> world" where
  "newStore f w =
     (case os_Stat f w of
        (Inl e, w1) \<Rightarrow> (Inl e, w1)
      | (Inr sz, w1) \<Rightarrow>
          (Inr \<lparr>st_file = f, st_buf = NewWriter f, st_size = of_nat sz\<rparr>, w1))"

text \<open>\<open>(*store).Append\<close>: the result is \<open>(n, pos)\<close> or the error.\<close>

definition store_Append :: "store \<Rightarrow> byte list \<Rightarrow> world \<Rightarrow> (error + (uint64 \<times> uint64)) \<times> store \<times> world" where
  "store_Append s p w =
     (let pos = st_size s in
      case binary_Write (st_buf s) (of_nat (length p)) w of
        (Some e, b1, w1) \<Rightarrow> (Inl e, s\<lparr>st_buf := b1\<rparr>, w1)
      | (None, b1, w1) \<Rightarrow>
          (case bufio_Write b1 p 0 w1 of
             ((n, Some e), b2, w2) \<Rightarrow> (Inl e, s\<lparr>st_buf := b2\<rparr>, w2)
           | ((n, None), b2, w2) \<Rightarrow>
               (let n' = n + lenWidth
                in (Inr (of_nat n', pos),
                    s\<lparr>st_buf := b2, st_size := st_size s + of_nat n'\<rparr>, w2))))"

text \<open>\<open>(*store).Read\<close>.\<close>

definition store_Read :: "store \<Rightarrow> uint64 \<Rightarrow> world \<Rightarrow> (error + byte list) \<times> store \<times> world" where
  "store_Read s pos w =
     (case Flush (st_buf s) w of
        (Some e, b1, w1) \<Rightarrow> (Inl e, s\<lparr>st_buf := b1\<rparr>, w1)
      | (None, b1, w1) \<Rightarrow>
          (case File_ReadAt (st_file s) lenWidth (sint pos) w1 of
             ((sz, Some e), w2) \<Rightarrow> (Inl e, s\<lparr>st_buf := b1\<rparr>, w2)
           | ((sz, None), w2) \<Rightarrow>
               if unat (Uint64 sz) > maxAlloc then (Inl Panic, s\<lparr>st_buf := b1\<rparr>, w2)
               else case File_ReadAt (st_file s) (unat (Uint64 sz)) (sint (pos + of_nat lenWidth)) w2 of
                      ((b, Some e), w3) \<Rightarrow> (Inl e, s\<lparr>st_buf := b1\<rparr>, w3)
                    | ((b, None), w3) \<Rightarrow> (Inr b, s\<lparr>st_buf := b1\<rparr>, w3)))"

text \<open>\<open>(*store).ReadAt\<close> with \<open>n = len(p)\<close>: the bytes read and the error.\<close>

definition store_ReadAt :: "store \<Rightarrow> nat \<Rightarrow> int64 \<Rightarrow> world \<Rightarrow> (byte list \<times> error option) \<times> store \<times> world" where
  "store_ReadAt s n off w =
     (case Flush (st_buf s) w of
        (Some e, b1, w1) \<Rightarrow> (([], Some e), s\<lparr>st_buf := b1\<rparr>, w1)
      | (None, b1, w1) \<Rightarrow>
          (case File_ReadAt (st_file s) n (sint off) w1 of
             (r, w2) \<Rightarrow> (r, s\<lparr>st_buf := b1\<rparr>, w2)))"

text \<open>\<open>(*store).Close\<close>.\<close>

definition store_Close :: "store \<Rightarrow> world \<Rightarrow> error option \<times> store \<times> world" where
  "store_Close s w =
     (case Flush (st_buf s) w of
        (Some e, b1, w1) \<Rightarrow> (Some e, s\<lparr>st_buf := b1\<rparr>, w1)
      | (None, b1, w1) \<Rightarrow>
          (case File_Close (st_file s) w1 of
             (r, w2) \<Rightarrow> (r, s\<lparr>st_buf := b1\<rparr>, w2)))"

text \<open>The bytes of a string literal.\<close>

definition bytes :: "string \<Rightarrow> byte list" where
  "bytes s = map (\<lambda>c. of_nat (of_char c)) s"

section \<open>Notions used in the statements\<close>

text \<open>The twelve bytes of one index entry.\<close>

definition entry :: "uint32 \<times> uint64 \<Rightarrow> byte list" where
  "entry e = PutUint32 (fst e) @ PutUint64 (snd e)"

text \<open>What reading entry number \<open>out\<close> of an index gives: end of data when the index is
  empty or the entry lies beyond \<open>size\<close>, the decoded fields otherwise (and a panic if the
  mapped region is shorter than \<open>size\<close> says).\<close>

definition read_entry :: "index \<Rightarrow> uint32 \<Rightarrow> error + (uint32 \<times> uint64)" where
  "read_entry i out =
     (if idx_size i = 0 \<or> unat (idx_size i) < 12 * unat out + 12 then Inl EOF
      else if length (idx_mmap i) < 12 * unat out + 12 then Inl Panic
      else Inr (Uint32 (take 4 (drop (12 * unat out) (idx_mmap i))),
                Uint64 (take 8 (drop (12 * unat out + 4) (idx_mmap i)))))"

text \<open>An index whose size lies within its mapped region; the length of a mapped region is
  a Go \<open>int\<close>.\<close>

definition wf_index :: "index \<Rightarrow> bool" where
  "wf_index i \<longleftrightarrow> unat (idx_size i) \<le> length (idx_mmap i) \<and> length (idx_mmap i) < 2 ^ 63"

text \<open>The calls a user of an index can make, and the index and world each leaves behind.
  \<open>Read\<close> and \<open>Name\<close> assign nothing; \<open>Close\<close> acts on the file only.\<close>

datatype index_op = OpWrite uint32 uint64 | OpRead int64 | OpName | OpClose

fun index_step :: "index \<times> world \<Rightarrow> index_op \<Rightarrow> index \<times> world" where
  "index_step (i, w) (OpWrite off pos) = (snd (index_Write i off pos), w)"
| "index_step (i, w) (OpRead inp) = (i, w)"
| "index_step (i, w) OpName = (i, w)"
| "index_step (i, w) OpClose = (i, snd (index_Close i w))"

text \<open>The setting of \<open>TestIndex\<close>: an empty temporary file, its handle at offset 0 as
  \<open>os.CreateTemp\<close> returns it, \<open>MaxIndexBytes = 1024\<close>, no failing system call; the index as
  opened there, and after its first and second write.\<close>

definition test_world :: world where
  "test_world = \<lparr>files = [''index_test'' \<mapsto> []], offsets = (\<lambda>f. At 0), sched = [], trace = []\<rparr>"

definition fresh_index :: index where
  "fresh_index = \<lparr>idx_file = ''index_test'', idx_mmap = replicate 1024 0, idx_size = 0\<rparr>"

definition one_entry_index :: index where
  "one_entry_index = \<lparr>idx_file = ''index_test'',
      idx_mmap = entry (0, 0) @ replicate 1012 0, idx_size = 12\<rparr>"

definition two_entry_index :: index where
  "two_entry_index = \<lparr>idx_file = ''index_test'',
      idx_mmap = entry (0, 0) @ entry (1, 10) @ replicate 1000 0, idx_size = 24\<rparr>"

text \<open>The invariant of the data model: \<open>size\<close> is a multiple of 12 and at most the
  capacity, which is the length of the mapped region.\<close>

definition index_inv :: "index \<Rightarrow> bool" where
  "index_inv i \<longleftrightarrow> 12 dvd unat (idx_size i) \<and> unat (idx_size i) \<le> length (idx_mmap i)"

text \<open>The sizes of an opened index stay within Go's ranges: the mapped region has the
  configured length, a Go \<open>int\<close>, and the size is a file length or within the region.\<close>

definition in_range :: "uint64 \<Rightarrow> index \<Rightarrow> bool" where
  "in_range c i \<longleftrightarrow>
     length (idx_mmap i) = unat c \<and> unat c < 2 ^ 63 \<and> unat (idx_size i) < 2 ^ 63"

text \<open>The restart of \<open>TestIndex\<close>: open, write the entries, close, open again on the same
  file with the same configuration, read the last entry.\<close>

definition reopen_after_close ::
  "string \<Rightarrow> uint64 \<Rightarrow> (uint32 \<times> uint64) list \<Rightarrow> world \<Rightarrow> error + (uint32 \<times> uint64)" where
  "reopen_after_close f c es w =
     (case newIndex f c w of
        (Inl e, w1) \<Rightarrow> Inl e
      | (Inr idx, w1) \<Rightarrow>
          (case write_all idx es of
             (Some e, idx1) \<Rightarrow> Inl e
           | (None, idx1) \<Rightarrow>
               (case index_Close idx1 w1 of
                  (Some e, w2) \<Rightarrow> Inl e
                | (None, w2) \<Rightarrow>
                    (case newIndex f c w2 of
                       (Inl e, w3) \<Rightarrow> Inl e
                     | (Inr idx2, w3) \<Rightarrow> index_Read idx2 (- 1)))))"

text \<open>The world of \<open>TestIndex\<close> once the index is open, and the same world when the third
  system call to come, the truncation in \<open>Close\<close>, fails (with \<open>EIO\<close>).\<close>

definition opened_world :: world where
  "opened_world = \<lparr>files = [''index_test'' \<mapsto> replicate 1024 0], offsets = (\<lambda>f. At 0),
     sched = [],
     trace = [SysStat ''index_test'', SysTruncate ''index_test'' 1024, SysMmap ''index_test'']\<rparr>"

definition failing_truncate_world :: world where
  "failing_truncate_world = opened_world\<lparr>sched := [Succeeds, Succeeds, Fails 5 0]\<rparr>"

definition closed_world :: world where
  "closed_world = \<lparr>files = [''index_test'' \<mapsto> entry (0, 0) @ entry (1, 10)],
     offsets = (\<lambda>f. At 0), sched = [],
     trace = [SysStat ''index_test'', SysTruncate ''index_test'' 1024, SysMmap ''index_test'',
              SysMsync ''index_test'', SysFsync ''index_test'', SysFtruncate ''index_test'' 24,
              SysClose ''index_test'']\<rparr>"

text \<open>A world in which no system call still to come fails.\<close>

definition fault_free :: "world \<Rightarrow> bool" where
  "fault_free w \<longleftrightarrow> list_all (\<lambda>r. r = Succeeds) (sched w)"

text \<open>A handle that writes at the end of its file: it was opened with \<open>O_APPEND\<close>, or
  its offset is the length of the file (as for a new, empty file).\<close>

definition at_end :: "world \<Rightarrow> string \<Rightarrow> bool" where
  "at_end w f \<longleftrightarrow>
     (case offsets w f of
        AtEnd \<Rightarrow> True
      | At k \<Rightarrow> (case files w f of None \<Rightarrow> False | Some d \<Rightarrow> k = length d))"

text \<open>The file \<open>f\<close> holds \<open>d\<close> and its handle writes at its end.\<close>

definition appends_to :: "world \<Rightarrow> string \<Rightarrow> byte list \<Rightarrow> bool" where
  "appends_to w f d \<longleftrightarrow> files w f = Some d \<and> at_end w f"

text \<open>The invariant of the store: the writer writes to the store's file, and unless the
  writer has failed, the handle writes at the end of the file and \<open>size\<close> is the length
  of the file plus the bytes still buffered.\<close>

definition store_inv :: "store \<Rightarrow> world \<Rightarrow> bool" where
  "store_inv s w \<longleftrightarrow>
     wr (st_buf s) = st_file s \<and>
     (werr (st_buf s) = None \<longrightarrow>
        at_end w (st_file s) \<and>
        (case files w (st_file s) of
           None \<Rightarrow> False
         | Some d \<Rightarrow> unat (st_size s) = length d + length (wbuf (st_buf s))))"

text \<open>The setting of the store's scenario: an empty file and no failing system call; the
  store as opened there, after appending \<open>hello world\<close>, and after appending \<open>foo\<close>.\<close>

definition store_world :: world where
  "store_world = \<lparr>files = [''store_test'' \<mapsto> []], offsets = (\<lambda>f. At 0), sched = [], trace = []\<rparr>"

definition empty_store :: store where
  "empty_store = \<lparr>st_file = ''store_test'', st_buf = NewWriter ''store_test'', st_size = 0\<rparr>"

definition store_hello :: store where
  "store_hello = \<lparr>st_file = ''store_test'',
     st_buf = \<lparr>wr = ''store_test'', wbuf = PutUint64 11 @ bytes ''hello world'', werr = None\<rparr>,
     st_size = 19\<rparr>"

definition store_hello_foo :: store where
  "store_hello_foo = \<lparr>st_file = ''store_test'',
     st_buf = \<lparr>wr = ''store_test'',
                wbuf = PutUint64 11 @ bytes ''hello world'' @ PutUint64 3 @ bytes ''foo'',
                werr = None\<rparr>,
     st_size = 30\<rparr>"

text \<open>A restart: the file holds the record \<open>hello world\<close> and is opened again, once with
  \<open>os.OpenFile(name, os.O_RDWR, ...)\<close>, which leaves the handle at offset 0, and once with
  \<open>O_APPEND\<close> added; the store as \<open>newStore\<close> returns it on either handle, and after
  appending \<open>foo\<close>.\<close>

definition reopened_world :: world where
  "reopened_world = \<lparr>files = [''store_test'' \<mapsto> PutUint64 11 @ bytes ''hello world''],
     offsets = (\<lambda>f. At 0), sched = [], trace = []\<rparr>"

definition restarted_world :: world where
  "restarted_world = reopened_world\<lparr>trace := [SysStat ''store_test'']\<rparr>"

definition appending_world :: world where
  "appending_world = restarted_world\<lparr>offsets := (\<lambda>f. AtEnd)\<rparr>"

definition reopened_store :: store where
  "reopened_store = \<lparr>st_file = ''store_test'', st_buf = NewWriter ''store_test'', st_size = 19\<rparr>"


text \<open>The same file when the next write to it fails with error 5.\<close>

definition failing_store_world :: world where
  "failing_store_world = \<lparr>files = [''store_test'' \<mapsto> []], offsets = (\<lambda>f. At 0),
     sched = [Fails 5 0], trace = []\<rparr>"

section \<open>The encoding round trip\<close>

lemma bit_byte_of:
  "bit (push_bit k (ucast (ucast (drop_bit k v) :: byte) :: 'a :: len word)) n
     \<longleftrightarrow> k \<le> n \<and> n < k + 8 \<and> bit (v :: 'a word) n"
  by (auto simp: bit_simps dest: bit_imp_le_length)

lemma bit_byte_of_0:
  "bit (ucast (ucast v :: byte) :: 'a :: len word) n \<longleftrightarrow> n < 8 \<and> bit (v :: 'a word) n"
  by (auto simp: bit_simps dest: bit_imp_le_length)

lemma Uint32_PutUint32: "Uint32 (PutUint32 v) = v"
proof (rule bit_word_eqI)
  fix n :: nat
  assume "n < LENGTH(32)"
  then show "bit (Uint32 (PutUint32 v)) n = bit v n"
    unfolding Uint32_def PutUint32_def
    by (simp add: bit_or_iff bit_byte_of bit_byte_of_0) arith
qed

lemma Uint64_PutUint64: "Uint64 (PutUint64 v) = v"
proof (rule bit_word_eqI)
  fix n :: nat
  assume "n < LENGTH(64)"
  then show "bit (Uint64 (PutUint64 v)) n = bit v n"
    unfolding Uint64_def PutUint64_def
    by (simp add: bit_or_iff bit_byte_of bit_byte_of_0) arith
qed

lemma length_PutUint32: "length (PutUint32 v) = 4"
  by (simp add: PutUint32_def)

lemma length_PutUint64: "length (PutUint64 v) = 8"
  by (simp add: PutUint64_def)

lemma length_entry: "length (entry e) = 12"
  by (simp add: entry_def length_PutUint32 length_PutUint64)

lemma Uint32_entry: "Uint32 (take 4 (entry e)) = fst e"
  by (simp add: entry_def length_PutUint32 Uint32_PutUint32)

lemma Uint64_entry: "Uint64 (take 8 (drop 4 (entry e))) = snd e"
  by (simp add: entry_def length_PutUint32 length_PutUint64 Uint64_PutUint64)

lemma length_bytes: "length (bytes s) = length s"
  by (simp add: bytes_def)

section \<open>Arithmetic on the machine integers\<close>

lemma unat_plus_4: "unat (a :: uint64) + 4 < 2 ^ 64 \<Longrightarrow> unat (a + 4) = unat a + 4"
  by (simp add: unat_word_ariths)

lemma unat_plus_12: "unat (a :: uint64) + 12 < 2 ^ 64 \<Longrightarrow> unat (a + 12) = unat a + 12"
  by (simp add: unat_word_ariths)

lemma unat_ucast_32_64: "unat (ucast (x :: uint32) :: uint64) = unat x"
proof -
  have "unat x < 2 ^ 32" using unsigned_less [of x] by simp
  then have "unat x < 2 ^ 64" by simp
  then show ?thesis by (simp add: unsigned_ucast_eq take_bit_nat_eq_self)
qed

lemma unat_ucast_mult_12: "unat ((ucast (out :: uint32) :: uint64) * 12) = 12 * unat out"
proof -
  have "unat out < 2 ^ 32" using unsigned_less [of out] by simp
  then show ?thesis by (simp add: unat_word_ariths unat_ucast_32_64)
qed

lemma unat_ucast_mult_12_plus:
  "k \<le> 12 \<Longrightarrow> unat ((ucast (out :: uint32) :: uint64) * 12 + of_nat k) = 12 * unat out + k"
proof -
  assume k: "k \<le> 12"
  have "unat out < 2 ^ 32" using unsigned_less [of out] by simp
  then show ?thesis using k by (simp add: unat_word_ariths unat_ucast_32_64 unat_of_nat)
qed

lemma unat_ucast_mult_12_plus_4:
  "unat ((ucast (out :: uint32) :: uint64) * 12 + 4) = 12 * unat out + 4"
  using unat_ucast_mult_12_plus [of 4 out] by simp

lemma unat_ucast_mult_12_plus_12:
  "unat ((ucast (out :: uint32) :: uint64) * 12 + 12) = 12 * unat out + 12"
  using unat_ucast_mult_12_plus [of 12 out] by simp

lemma ucast_of_nat_32: "k < 2 ^ 32 \<Longrightarrow> unat (ucast (of_nat k :: uint64) :: uint32) = k"
  by (simp add: unsigned_ucast_eq unat_of_nat take_bit_nat_eq_self)

lemma of_nat_neq_minus1: "k < 2 ^ 32 \<Longrightarrow> (of_nat k :: uint64) \<noteq> - 1"
proof
  assume k: "k < 2 ^ 32" and eq: "(of_nat k :: uint64) = - 1"
  have "(- 1 :: uint64) = of_nat (2 ^ 64 - 1)" by simp
  with eq have "take_bit 64 k = take_bit 64 (2 ^ 64 - 1 :: nat)"
    by (simp only: word_of_nat_eq_iff) simp
  with k show False by (simp add: take_bit_nat_eq_self)
qed

lemma last_index:
  assumes "0 < n" "n \<le> 2 ^ 32"
  shows "unat (ucast ((of_nat (12 * n) :: uint64) div 12 - 1) :: uint32) = n - 1"
proof -
  have a: "unat (of_nat (12 * n) :: uint64) = 12 * n"
    using assms by (simp add: unat_of_nat del: of_nat_mult)
  have "unat ((of_nat (12 * n) :: uint64) div 12) = n"
    by (simp only: unat_div a) simp
  then have "word_of_nat (unat ((of_nat (12 * n) :: uint64) div 12)) = (of_nat n :: uint64)"
    by (rule arg_cong)
  then have b: "(of_nat (12 * n) :: uint64) div 12 = of_nat n"
    by (simp del: of_nat_mult)
  have c: "(of_nat n :: uint64) - 1 = of_nat (n - 1)" using assms by (simp add: of_nat_diff)
  have "n - 1 < 2 ^ 32" using assms by simp
  then show ?thesis unfolding b c by (rule ucast_of_nat_32)
qed

lemma sint_nonneg:
  assumes "0 \<le> sint (c :: uint64)"
  shows "nat (sint c) = unat c" and "unat c < 2 ^ 63"
proof -
  have lt: "sint c < 2 ^ 63" using sint_lt [of c] by simp
  then have "sint c < 2 ^ 64" by simp
  with assms have "take_bit 64 (sint c) = sint c" by (simp add: take_bit_int_eq_self)
  then have u: "uint c = sint c" using uint_sint [of c] by simp
  show eq: "nat (sint c) = unat c" by (simp only: unat_eq_nat_uint u)
  have "nat (sint c) < 2 ^ 63" using lt assms by (simp add: nat_less_iff)
  then show "unat c < 2 ^ 63" by (simp only: eq)
qed

lemma sint_of_small:
  assumes "unat (c :: uint64) < 2 ^ 63"
  shows "sint c = int (unat c)"
proof -
  have "int (unat c) < 2 ^ 63" using assms by (simp only: of_nat_less_numeral_power_cancel_iff)
  then have "uint c < 2 ^ 63" by (simp only: uint_nat)
  moreover have "- (2 ^ 63) \<le> uint c" by (rule order_trans [of _ 0]) simp_all
  ultimately have "signed_take_bit 63 (uint c) = uint c"
    by (intro signed_take_bit_int_eq_self)
  then have "sint c = uint c" by (simp add: sint_uint)
  then show ?thesis by (simp only: uint_nat)
qed

lemma unat_ucast_64_32: "unat (ucast (x :: uint64) :: uint32) = unat x mod 2 ^ 32"
  by (simp add: unsigned_ucast_eq take_bit_eq_mod)

lemma int_unat_ucast_sint: "int (unat (ucast (x :: int64) :: uint32)) = sint x mod 2 ^ 32"
proof -
  have "uint x = sint x mod 2 ^ 64"
    using uint_sint [of x] by (simp add: take_bit_eq_mod)
  then have "uint x mod 2 ^ 32 = sint x mod 2 ^ 64 mod 2 ^ 32" by simp
  also have "\<dots> = sint x mod 2 ^ 32"
    by (rule mod_mod_cancel) simp
  finally have a: "uint x mod 2 ^ 32 = sint x mod 2 ^ 32" .
  have "int (unat (ucast x :: uint32)) = int (unat x mod 2 ^ 32)"
    by (simp only: unat_ucast_64_32)
  also have "\<dots> = int (unat x) mod 2 ^ 32" by (simp add: zmod_int)
  also have "\<dots> = uint x mod 2 ^ 32" by (simp only: uint_nat)
  finally show ?thesis using a by simp
qed

lemma ucast_2p32_plus:
  assumes "k < 2 ^ 32"
  shows "(ucast (2 ^ 32 + of_nat k :: uint64) :: uint32) = ucast (of_nat k :: uint64)"
proof -
  have "(2 ^ 32 + of_nat k :: uint64) = of_nat (2 ^ 32 + k)" by simp
  then have "unat (2 ^ 32 + of_nat k :: uint64) = 2 ^ 32 + k"
    using assms by (simp only: unat_of_nat) simp
  then have "unat (ucast (2 ^ 32 + of_nat k :: uint64) :: uint32) = k"
    using assms by (simp only: unat_ucast_64_32) simp
  then have "unat (ucast (2 ^ 32 + of_nat k :: uint64) :: uint32)
      = unat (ucast (of_nat k :: uint64) :: uint32)"
    using ucast_of_nat_32 [OF assms] by simp
  then show ?thesis by (simp only: word_unat_eq_iff)
qed

lemma two_p32_plus_neq_minus1:
  assumes "k < 2 ^ 32"
  shows "(2 ^ 32 + of_nat k :: uint64) \<noteq> - 1"
proof
  assume eq: "(2 ^ 32 + of_nat k :: uint64) = - 1"
  have e1: "(2 ^ 32 + of_nat k :: uint64) = of_nat (2 ^ 32 + k)" by simp
  have e2: "(- 1 :: uint64) = of_nat (2 ^ 64 - 1)" by simp
  from eq have "(of_nat (2 ^ 32 + k) :: uint64) = of_nat (2 ^ 64 - 1)"
    by (simp only: e1 e2)
  then have "take_bit 64 (2 ^ 32 + k) = take_bit 64 (2 ^ 64 - 1 :: nat)"
    by (simp only: word_of_nat_eq_iff) simp
  with assms show False by (simp add: take_bit_nat_eq_self)
qed

lemma ucast_32_64_32: "(ucast (ucast (x :: uint32) :: uint64) :: uint32) = x"
proof -
  have "unat x < 2 ^ 32" using unsigned_less [of x] by simp
  then have "unat (ucast (ucast x :: uint64) :: uint32) = unat x"
    by (simp only: unat_ucast_64_32 unat_ucast_32_64) simp
  then show ?thesis by (simp only: word_unat_eq_iff)
qed

lemma ucast_32_64_neq_minus1: "(ucast (x :: uint32) :: uint64) \<noteq> - 1"
proof
  assume eq: "(ucast x :: uint64) = - 1"
  have lt: "unat x < 2 ^ 32" using unsigned_less [of x] by simp
  have "(of_nat (unat x) :: uint64) = ucast x" by simp
  with eq have "(of_nat (unat x) :: uint64) = - 1" by (simp only:)
  with of_nat_neq_minus1 [OF lt] show False by simp
qed

section \<open>System calls\<close>

lemma files_sys: "files (snd (sys c w)) = files w"
  by (simp add: sys_def split: list.splits)

lemma offsets_sys: "offsets (snd (sys c w)) = offsets w"
  by (simp add: sys_def split: list.splits)

lemma trace_sys: "trace (snd (sys c w)) = trace w @ [c]"
  by (simp add: sys_def split: list.splits)

lemma sys_no_fault:
  "sched w = [] \<Longrightarrow> sys c w = (Succeeds, w\<lparr>trace := trace w @ [c]\<rparr>)"
  by (simp add: sys_def)

lemma sys_fault_free:
  assumes "fault_free w"
  obtains w1 where "sys c w = (Succeeds, w1)" "files w1 = files w" "fault_free w1"
  using assms by (cases "sched w") (auto simp: sys_def fault_free_def)

lemma os_Stat_Inr:
  assumes "os_Stat f w = (Inr n, w1)"
  shows "files w1 = files w" and "files w f = Some d \<Longrightarrow> n = length d"
  using assms files_sys [of "SysStat f" w]
  by (auto simp: os_Stat_def split: prod.splits outcome.splits option.splits)

lemma offsets_os_Stat: "offsets (snd (os_Stat f w)) = offsets w"
  using offsets_sys [of "SysStat f" w]
  by (auto simp: os_Stat_def split: prod.splits outcome.splits option.splits)

lemma appends_to_cong:
  "files w' = files w \<Longrightarrow> offsets w' = offsets w \<Longrightarrow> appends_to w' f d = appends_to w f d"
  by (auto simp: appends_to_def at_end_def split: position.splits)

lemma set_length_None:
  assumes "set_length f n w = (None, w1)" and "files w f = Some d"
  shows "0 \<le> n" and "files w1 = (files w)(f \<mapsto> resize (nat n) d)"
  using assms by (auto simp: set_length_def split: if_splits)

lemma os_Truncate_None:
  assumes "os_Truncate f n w = (None, w1)" and "files w f = Some d"
  shows "0 \<le> n" and "files w1 = (files w)(f \<mapsto> resize (nat n) d)"
proof -
  obtain w0 where a: "sys (SysTruncate f n) w = (Succeeds, w0)" and b: "set_length f n w0 = (None, w1)"
    using assms(1) by (auto simp: os_Truncate_def split: prod.splits outcome.splits)
  have c: "files w0 = files w" using files_sys [of "SysTruncate f n" w] a by simp
  with assms(2) have "files w0 f = Some d" by simp
  from set_length_None [OF b this] c
  show "0 \<le> n" and "files w1 = (files w)(f \<mapsto> resize (nat n) d)" by simp_all
qed

lemma File_Truncate_None:
  assumes "File_Truncate f n w = (None, w1)" and "files w f = Some d"
  shows "0 \<le> n" and "files w1 = (files w)(f \<mapsto> resize (nat n) d)"
proof -
  obtain w0 where a: "sys (SysFtruncate f n) w = (Succeeds, w0)" and b: "set_length f n w0 = (None, w1)"
    using assms(1) by (auto simp: File_Truncate_def split: prod.splits outcome.splits)
  have c: "files w0 = files w" using files_sys [of "SysFtruncate f n" w] a by simp
  with assms(2) have "files w0 f = Some d" by simp
  from set_length_None [OF b this] c
  show "0 \<le> n" and "files w1 = (files w)(f \<mapsto> resize (nat n) d)" by simp_all
qed

lemma gommap_Map_Inr:
  assumes "gommap_Map f w = (Inr m, w1)"
  shows "files w1 = files w" and "files w f = Some m" and "m \<noteq> []"
  using assms files_sys [of "SysMmap f" w]
  by (auto simp: gommap_Map_def split: prod.splits outcome.splits option.splits if_splits)

lemma length_resize: "length (resize n d) = n"
  by (simp add: resize_def)

lemma File_Write_count:
  "File_Write f b w = ((n, err), w1) \<Longrightarrow> n \<le> length b \<and> (err = None \<longrightarrow> n = length b)"
  by (auto simp: File_Write_def split: prod.splits outcome.splits option.splits)

text \<open>A write through a handle that writes at the end of its file appends, and the handle
  still writes at the end.\<close>

lemma write_at_end:
  "offsets w f = AtEnd \<or> offsets w f = At (length d) \<Longrightarrow>
   write_at (offsets w f) d b = d @ b \<and>
   (advance (offsets w f) (length b) = AtEnd \<or>
    advance (offsets w f) (length b) = At (length d + length b))"
  by (cases "offsets w f") auto

lemma appends_to_iff:
  "appends_to w f d \<longleftrightarrow>
     files w f = Some d \<and> (offsets w f = AtEnd \<or> offsets w f = At (length d))"
  by (auto simp: appends_to_def at_end_def split: position.splits)

lemma File_Write_ok:
  assumes "File_Write f b w = ((n, None), w1)" and "appends_to w f d"
  shows "appends_to w1 f (d @ b)"
proof -
  obtain r w0 where s: "sys (SysWrite f (length b)) w = (r, w0)" by (metis prod.collapse)
  have f0: "files w0 = files w" using files_sys [of "SysWrite f (length b)" w] s by simp
  have o0: "offsets w0 = offsets w" using offsets_sys [of "SysWrite f (length b)" w] s by simp
  from assms(2) have d: "files w f = Some d"
    and o: "offsets w f = AtEnd \<or> offsets w f = At (length d)"
    by (simp_all add: appends_to_iff)
  note wa = write_at_end [OF o, of b]
  from assms(1) s f0 d have r: "r = Succeeds"
    by (cases r) (simp_all add: File_Write_def)
  have "w1 = w0\<lparr>files := (files w0)(f \<mapsto> write_at (offsets w0 f) d b),
      offsets := (offsets w0)(f := advance (offsets w0 f) (length b))\<rparr>"
    using assms(1) s r f0 d by (auto simp: File_Write_def)
  then show ?thesis using wa o0 by (auto simp: appends_to_iff)
qed

lemma File_Write_fault_free:
  assumes "fault_free w" and "appends_to w f d"
  obtains w1 where "File_Write f b w = ((length b, None), w1)" "appends_to w1 f (d @ b)"
    "fault_free w1"
proof -
  obtain w0 where a: "sys (SysWrite f (length b)) w = (Succeeds, w0)" "files w0 = files w"
    "fault_free w0"
    using assms(1) by (rule sys_fault_free)
  from assms(2) have d: "files w f = Some d" by (simp add: appends_to_def)
  let ?w1 = "w0\<lparr>files := (files w0)(f \<mapsto> write_at (offsets w0 f) d b),
      offsets := (offsets w0)(f := advance (offsets w0 f) (length b))\<rparr>"
  have fw: "File_Write f b w = ((length b, None), ?w1)"
    using a d by (simp add: File_Write_def)
  moreover have "appends_to ?w1 f (d @ b)" using fw assms(2) by (rule File_Write_ok)
  moreover have "fault_free ?w1" using a(3) by (simp add: fault_free_def)
  ultimately show ?thesis by (rule that)
qed

lemma files_File_ReadAt: "files (snd (File_ReadAt f n off w)) = files w"
  using files_sys [of "SysPread f n (nat off)" w]
  by (auto simp: File_ReadAt_def Let_def split: prod.splits outcome.splits option.splits)

lemma offsets_File_ReadAt: "offsets (snd (File_ReadAt f n off w)) = offsets w"
  using offsets_sys [of "SysPread f n (nat off)" w]
  by (auto simp: File_ReadAt_def Let_def split: prod.splits outcome.splits option.splits)



section \<open>The index: opening and writing\<close>

lemma newIndex_result:
  assumes "newIndex f c w = (Inr i, w')" and "files w f = Some d"
  shows "i = \<lparr>idx_file = f, idx_mmap = resize (unat c) d, idx_size = of_nat (length d)\<rparr>"
    and "unat c < 2 ^ 63" and "0 < unat c" and "files w' f = Some (resize (unat c) d)"
proof -
  from assms(1) obtain sz w1 w2 m where
    st: "os_Stat f w = (Inr sz, w1)" and tr: "os_Truncate f (sint c) w1 = (None, w2)"
    and mp: "gommap_Map f w2 = (Inr m, w')"
    and i: "i = \<lparr>idx_file = f, idx_mmap = m, idx_size = of_nat sz\<rparr>"
    by (auto simp: newIndex_def split: prod.splits sum.splits option.splits)
  have sz: "sz = length d" and f1: "files w1 f = Some d"
    using os_Stat_Inr [OF st] assms(2) by simp_all
  have nn: "0 \<le> sint c" and f2: "files w2 = (files w1)(f \<mapsto> resize (nat (sint c)) d)"
    using os_Truncate_None [OF tr f1] by simp_all
  note c = sint_nonneg [OF nn]
  have m: "m = resize (unat c) d" and ne: "m \<noteq> []" and f3: "files w' = files w2"
    using gommap_Map_Inr [OF mp] f2 c by simp_all
  show "i = \<lparr>idx_file = f, idx_mmap = resize (unat c) d, idx_size = of_nat (length d)\<rparr>"
    using i m sz by simp
  show "unat c < 2 ^ 63" by (rule c)
  show "0 < unat c" using ne m length_resize [of "unat c" d] by (cases "unat c") auto
  show "files w' f = Some (resize (unat c) d)" using f3 f2 c by simp
qed

lemma index_Name_newIndex:
  "newIndex f c w = (Inr i, w') \<Longrightarrow> index_Name i = f"
  by (auto simp: newIndex_def index_Name_def split: prod.splits sum.splits option.splits)

lemma index_Write_cases:
  assumes "unat (idx_size i) + 12 < 2 ^ 64" and "length (idx_mmap i) < 2 ^ 64"
  shows "index_Write i off pos =
    (if length (idx_mmap i) < unat (idx_size i) + 12 then (Some EOF, i)
     else (None, i\<lparr>idx_mmap := take (unat (idx_size i)) (idx_mmap i) @ entry (off, pos)
                       @ drop (unat (idx_size i) + 12) (idx_mmap i),
                   idx_size := idx_size i + 12\<rparr>))"
proof -
  have a: "unat (idx_size i + 12) = unat (idx_size i) + 12"
    using assms(1) by (rule unat_plus_12)
  have b: "unat (idx_size i + 4) = unat (idx_size i) + 4"
    using assms(1) by (simp add: unat_plus_4)
  have c: "(of_nat (length (idx_mmap i)) < idx_size i + 12) = (length (idx_mmap i) < unat (idx_size i) + 12)"
    using assms(2) by (simp add: word_less_nat_alt a unat_of_nat)
  show ?thesis
    unfolding index_Write_def totWidth_def offWidth_def posWidth_def
    by (simp add: c put_slice_def a b entry_def length_PutUint32 length_PutUint64 add.commute)
qed

lemma index_Write_failed_unchanged:
  assumes "index_Write i off pos = (Some e, i')" and "length (idx_mmap i) < 2 ^ 63"
  shows "i' = i"
proof (cases "unat (idx_size i) + 12 < 2 ^ 64")
  case True
  have "length (idx_mmap i) < 2 ^ 64" using assms(2) by simp
  from index_Write_cases [OF True this, of off pos] assms(1) show ?thesis
    by (auto split: if_splits)
next
  case False
  then have "length (idx_mmap i) < unat (idx_size i)" using assms(2) by simp
  then have "put_slice (idx_mmap i) (idx_size i) (idx_size i + offWidth) (PutUint32 off) = Inl Panic"
    by (simp add: put_slice_def)
  then show ?thesis
    using assms(1) by (simp add: index_Write_def split: if_splits)
qed

lemma write_all_result:
  assumes "wf_index i" and "write_all i es = (None, i')"
  shows "unat (idx_size i) + 12 * length es \<le> length (idx_mmap i) \<and>
         i' = i\<lparr>idx_mmap := take (unat (idx_size i)) (idx_mmap i) @ concat (map entry es)
                       @ drop (unat (idx_size i) + 12 * length es) (idx_mmap i),
                 idx_size := idx_size i + of_nat (12 * length es)\<rparr>"
  using assms
proof (induction es arbitrary: i)
  case Nil
  then show ?case by (simp add: wf_index_def)
next
  case (Cons e es)
  obtain off pos where e: "e = (off, pos)" by (cases e)
  have ov: "unat (idx_size i) + 12 < 2 ^ 64" "length (idx_mmap i) < 2 ^ 64"
    using Cons.prems(1) by (auto simp: wf_index_def)
  let ?j = "i\<lparr>idx_mmap := take (unat (idx_size i)) (idx_mmap i) @ entry (off, pos)
                       @ drop (unat (idx_size i) + 12) (idx_mmap i),
                   idx_size := idx_size i + 12\<rparr>"
  from Cons.prems(2) have fit: "\<not> length (idx_mmap i) < unat (idx_size i) + 12"
    and rest: "write_all ?j es = (None, i')"
    by (auto simp: e index_Write_cases [OF ov] split: if_splits)
  have sz: "unat (idx_size ?j) = unat (idx_size i) + 12"
    using ov(1) by (simp add: unat_plus_12)
  have len: "length (idx_mmap ?j) = length (idx_mmap i)"
    using fit by (simp add: length_entry)
  have wf: "wf_index ?j"
    unfolding wf_index_def sz len using Cons.prems(1) fit by (simp add: wf_index_def)
  note ih = Cons.IH [OF wf rest]
  have bound: "unat (idx_size i) + 12 * length (e # es) \<le> length (idx_mmap i)"
    using ih sz len by simp
  have mm: "take (unat (idx_size ?j)) (idx_mmap ?j) @ concat (map entry es)
               @ drop (unat (idx_size ?j) + 12 * length es) (idx_mmap ?j)
          = take (unat (idx_size i)) (idx_mmap i) @ concat (map entry (e # es))
               @ drop (unat (idx_size i) + 12 * length (e # es)) (idx_mmap i)"
    using fit by (simp add: unat_plus_12 [OF ov(1)] e length_entry add.commute add.left_commute)
  show ?case
    using ih bound mm by (simp add: algebra_simps)
qed

lemma write_all_fits:
  assumes "wf_index i" and "unat (idx_size i) + 12 * length es \<le> length (idx_mmap i)"
  shows "fst (write_all i es) = None"
  using assms
proof (induction es arbitrary: i)
  case Nil
  then show ?case by simp
next
  case (Cons e es)
  obtain off pos where e: "e = (off, pos)" by (cases e)
  have ov: "unat (idx_size i) + 12 < 2 ^ 64" "length (idx_mmap i) < 2 ^ 64"
    using Cons.prems(1) by (auto simp: wf_index_def)
  let ?j = "i\<lparr>idx_mmap := take (unat (idx_size i)) (idx_mmap i) @ entry (off, pos)
                       @ drop (unat (idx_size i) + 12) (idx_mmap i),
                   idx_size := idx_size i + 12\<rparr>"
  have fit: "\<not> length (idx_mmap i) < unat (idx_size i) + 12"
    using Cons.prems(2) by simp
  have w: "index_Write i off pos = (None, ?j)"
    using fit by (simp add: index_Write_cases [OF ov])
  have sz: "unat (idx_size ?j) = unat (idx_size i) + 12"
    using ov(1) by (simp add: unat_plus_12)
  have len: "length (idx_mmap ?j) = length (idx_mmap i)"
    using fit by (simp add: length_entry)
  have wf: "wf_index ?j"
    unfolding wf_index_def sz len using Cons.prems(1) fit by (simp add: wf_index_def)
  have "unat (idx_size ?j) + 12 * length es \<le> length (idx_mmap ?j)"
    unfolding sz len using Cons.prems(2) by simp
  from Cons.IH [OF wf this] show ?case by (simp add: e w)
qed

section \<open>The index: reading\<close>

lemma index_Read_entry:
  "index_Read i inp =
     read_entry i (if inp = - 1 then ucast (idx_size i div totWidth - 1) else ucast inp)"
  unfolding index_Read_def read_entry_def totWidth_def offWidth_def posWidth_def
  by (simp add: Let_def slice_def word_less_nat_alt unat_ucast_mult_12
        unat_ucast_mult_12_plus_4 unat_ucast_mult_12_plus_12)

lemma concat_entry_nth:
  "k < length es \<Longrightarrow> take 12 (drop (12 * k) (concat (map entry es) @ rest)) = entry (es ! k)"
proof (induction es arbitrary: k)
  case Nil
  then show ?case by simp
next
  case (Cons e es)
  show ?case
  proof (cases k)
    case 0
    then show ?thesis by (simp add: length_entry)
  next
    case (Suc j)
    with Cons.prems have "j < length es" by simp
    from Cons.IH [OF this] Suc show ?thesis by (simp add: length_entry)
  qed
qed

lemma read_entry_written:
  assumes m: "idx_mmap i = concat (map entry es) @ rest"
    and sz: "unat (idx_size i) = 12 * length es"
    and k: "unat out < length es"
  shows "read_entry i out = Inr (es ! unat out)"
proof -
  let ?k = "unat out"
  have e: "take 12 (drop (12 * ?k) (idx_mmap i)) = entry (es ! ?k)"
    unfolding m using k by (rule concat_entry_nth)
  have "take 4 (drop (12 * ?k) (idx_mmap i)) = take 4 (take 12 (drop (12 * ?k) (idx_mmap i)))"
    by simp
  then have a: "take 4 (drop (12 * ?k) (idx_mmap i)) = take 4 (entry (es ! ?k))"
    by (simp only: e)
  have "take 8 (drop (12 * ?k + 4) (idx_mmap i))
      = take 8 (drop 4 (take 12 (drop (12 * ?k) (idx_mmap i))))"
    by (simp add: drop_take add.commute)
  then have b: "take 8 (drop (12 * ?k + 4) (idx_mmap i)) = take 8 (drop 4 (entry (es ! ?k)))"
    by (simp only: e)
  have len: "12 * length es \<le> length (idx_mmap i)"
    by (simp add: m length_concat comp_def length_entry sum_list_triv)
  have nz: "idx_size i \<noteq> 0"
    using sz k by (auto simp: unat_eq_0 [symmetric] simp del: unat_eq_0)
  show ?thesis
    unfolding read_entry_def a b Uint32_entry Uint64_entry
    using nz sz k len by simp
qed

lemma read_entry_beyond:
  "unat (idx_size i) < 12 * unat out + 12 \<Longrightarrow> read_entry i out = Inl EOF"
  by (simp add: read_entry_def)

section \<open>The index: what every call preserves\<close>

lemma index_Write_inv:
  assumes "index_inv i" and "length (idx_mmap i) < 2 ^ 63"
  shows "index_inv (snd (index_Write i off pos))"
    and "length (idx_mmap (snd (index_Write i off pos))) = length (idx_mmap i)"
proof -
  have ov: "unat (idx_size i) + 12 < 2 ^ 64" "length (idx_mmap i) < 2 ^ 64"
    using assms by (auto simp: index_inv_def)
  show "index_inv (snd (index_Write i off pos))"
    using assms(1)
    by (simp add: index_Write_cases [OF ov] index_inv_def unat_plus_12 [OF ov(1)] length_entry)
  show "length (idx_mmap (snd (index_Write i off pos))) = length (idx_mmap i)"
    by (simp add: index_Write_cases [OF ov] length_entry)
qed

lemma index_step_inv:
  assumes "index_inv (fst s)" and "length (idx_mmap (fst s)) < 2 ^ 63"
  shows "index_inv (fst (index_step s op))"
    and "length (idx_mmap (fst (index_step s op))) = length (idx_mmap (fst s))"
proof -
  obtain i w where s: "s = (i, w)" by (cases s)
  show "index_inv (fst (index_step s op))"
    using assms index_Write_inv(1) [of i] by (cases op) (simp_all add: s)
  show "length (idx_mmap (fst (index_step s op))) = length (idx_mmap (fst s))"
    using assms index_Write_inv(2) [of i] by (cases op) (simp_all add: s)
qed

lemma index_run_inv:
  assumes "index_inv (fst s)" and "length (idx_mmap (fst s)) < 2 ^ 63"
  shows "index_inv (fst (foldl index_step s ops))
       \<and> length (idx_mmap (fst (foldl index_step s ops))) = length (idx_mmap (fst s))"
  using assms
proof (induction ops arbitrary: s)
  case Nil
  then show ?case by simp
next
  case (Cons op ops)
  have a: "index_inv (fst (index_step s op))"
    and b: "length (idx_mmap (fst (index_step s op))) = length (idx_mmap (fst s))"
    using index_step_inv [OF Cons.prems] by simp_all
  from b Cons.prems(2) have c: "length (idx_mmap (fst (index_step s op))) < 2 ^ 63" by simp
  from Cons.IH [OF a c] b show ?case by simp
qed

lemma newIndex_inv:
  assumes "newIndex f c w = (Inr i, w')" and "files w f = Some d"
    and "12 dvd length d" and "length d \<le> unat c"
  shows "index_inv i" and "length (idx_mmap i) = unat c" and "unat c < 2 ^ 63"
proof -
  note r = newIndex_result [OF assms(1,2)]
  have "length d < 2 ^ 64" using assms(4) r(2) by simp
  then have "unat (of_nat (length d) :: uint64) = length d" by (simp add: unat_of_nat)
  then show "index_inv i" using r(1) assms(3,4) by (simp add: index_inv_def length_resize)
  show "length (idx_mmap i) = unat c" using r(1) by (simp add: length_resize)
  show "unat c < 2 ^ 63" by (rule r(2))
qed

lemma index_Write_in_range:
  assumes "in_range c i"
  shows "in_range c (snd (index_Write i off pos))"
proof -
  have ov: "unat (idx_size i) + 12 < 2 ^ 64" "length (idx_mmap i) < 2 ^ 64"
    using assms by (auto simp: in_range_def)
  show ?thesis
    using assms
    by (auto simp: index_Write_cases [OF ov] in_range_def unat_plus_12 [OF ov(1)] length_entry)
qed

lemma index_run_in_range:
  "in_range c (fst s) \<Longrightarrow> in_range c (fst (foldl index_step s ops))"
proof (induction ops arbitrary: s)
  case Nil
  then show ?case by simp
next
  case (Cons op ops)
  obtain i w where s: "s = (i, w)" by (cases s)
  have "in_range c (fst (index_step s op))"
    using Cons.prems index_Write_in_range [of c i] by (cases op) (simp_all add: s)
  from Cons.IH [OF this] show ?case by simp
qed

lemma newIndex_in_range:
  assumes "newIndex f c w = (Inr i, w')" and "files w f = Some d" and "length d < 2 ^ 63"
  shows "in_range c i"
proof -
  note r = newIndex_result [OF assms(1,2)]
  have "length d < 2 ^ 64" using assms(3) by simp
  then have "unat (of_nat (length d) :: uint64) = length d" by (simp add: unat_of_nat)
  then show ?thesis using r assms(3) by (simp add: in_range_def length_resize)
qed

lemma index_Write_in_range_cases:
  assumes "in_range c i"
  shows "fst (index_Write i off pos) = (if unat c < unat (idx_size i) + 12 then Some EOF else None)"
proof -
  have ov: "unat (idx_size i) + 12 < 2 ^ 64" "length (idx_mmap i) < 2 ^ 64"
    using assms by (auto simp: in_range_def)
  show ?thesis using assms by (simp add: index_Write_cases [OF ov] in_range_def)
qed

section \<open>The index: closing\<close>

text \<open>With no failing system call, \<open>Close\<close> syncs the mapping, syncs the file, truncates
  it to \<open>size\<close> and closes it, in this order, and returns no error.\<close>

lemma index_Close_order:
  assumes "sched w = []" and "files w (idx_file i) = Some d" and "0 \<le> sint (idx_size i)"
  shows "fst (index_Close i w) = None"
    and "trace (snd (index_Close i w)) = trace w @
           [SysMsync (idx_file i), SysFsync (idx_file i),
            SysFtruncate (idx_file i) (sint (idx_size i)), SysClose (idx_file i)]"
    and "files (snd (index_Close i w)) (idx_file i)
           = Some (resize (nat (sint (idx_size i)))
                     (take (length d) (idx_mmap i) @ drop (length (idx_mmap i)) d))"
  using assms
  by (simp_all add: index_Close_def gommap_Sync_def File_Sync_def File_Truncate_def
        File_Close_def set_length_def sys_no_fault)

text \<open>A failure of the first, the second or the fourth call is returned as it is.\<close>

lemma index_Close_msync_fails:
  "sched w = Fails e k # rest \<Longrightarrow> fst (index_Close i w) = Some (OSError e)"
  by (simp add: index_Close_def gommap_Sync_def sys_def)

lemma index_Close_fsync_fails:
  "sched w = Succeeds # Fails e k # rest \<Longrightarrow> fst (index_Close i w) = Some (OSError e)"
  by (simp add: index_Close_def gommap_Sync_def File_Sync_def sys_def split: option.splits)

lemma index_Close_close_fails:
  assumes "sched w = Succeeds # Succeeds # Succeeds # Fails e k # rest"
    and "files w (idx_file i) = Some d" and "0 \<le> sint (idx_size i)"
  shows "fst (index_Close i w) = Some (OSError e)"
  using assms
  by (simp add: index_Close_def gommap_Sync_def File_Sync_def File_Truncate_def
        File_Close_def set_length_def sys_def)

text \<open>A failure of the third call, the truncation, is not: \<open>Close\<close> returns \<open>nil\<close> and
  leaves the file open and untruncated.\<close>

lemma index_Close_truncate_fails:
  assumes "sched w = Succeeds # Succeeds # Fails e k # rest"
  shows "fst (index_Close i w) = None"
    and "trace (snd (index_Close i w)) = trace w @
           [SysMsync (idx_file i), SysFsync (idx_file i),
            SysFtruncate (idx_file i) (sint (idx_size i))]"
  using assms
  by (simp_all add: index_Close_def gommap_Sync_def File_Sync_def File_Truncate_def
        sys_def split: option.splits)

section \<open>The index: restart\<close>

lemma newIndex_no_fault:
  assumes "sched w = []" and "files w f = Some d" and "unat c < 2 ^ 63" and "0 < unat c"
  shows "\<exists>w'. newIndex f c w
            = (Inr \<lparr>idx_file = f, idx_mmap = resize (unat c) d, idx_size = of_nat (length d)\<rparr>, w')
          \<and> sched w' = [] \<and> files w' f = Some (resize (unat c) d)"
proof -
  have s: "sint c = int (unat c)" by (rule sint_of_small [OF assms(3)])
  have "resize (unat c) d \<noteq> []"
    using assms(4) length_resize [of "unat c" d] by (cases "resize (unat c) d") auto
  then show ?thesis
    using assms(1,2)
    by (simp add: newIndex_def os_Stat_def os_Truncate_def gommap_Map_def set_length_def
          sys_no_fault s)
qed

lemma index_Close_no_fault:
  assumes "sched w = []" and "files w (idx_file i) = Some d" and "unat (idx_size i) < 2 ^ 63"
  shows "\<exists>w'. index_Close i w = (None, w') \<and> sched w' = []
          \<and> files w' (idx_file i)
              = Some (resize (unat (idx_size i))
                        (take (length d) (idx_mmap i) @ drop (length (idx_mmap i)) d))"
proof -
  have s: "sint (idx_size i) = int (unat (idx_size i))" by (rule sint_of_small [OF assms(3)])
  show ?thesis
    using assms(1,2)
    by (simp add: index_Close_def gommap_Sync_def File_Sync_def File_Truncate_def
        File_Close_def set_length_def sys_no_fault s)
qed

text \<open>The restart in general: whatever entries were written to an index opened on an empty
  file, after \<open>Close\<close> a fresh index on the same file reads the last of them at \<open>-1\<close>.\<close>

lemma restart_recovery_general:
  assumes nf: "sched w = []" and empty: "files w f = Some []" and c: "unat c < 2 ^ 63"
    and ne: "es \<noteq> []" and le: "length es \<le> 2 ^ 32" and fit: "12 * length es \<le> unat c"
  shows "reopen_after_close f c es w = Inr (last es)"
proof -
  let ?n = "length es"
  let ?E = "concat (map entry es)"
  have n0: "0 < ?n" using ne by simp
  have lE: "length ?E = 12 * ?n"
    by (simp add: length_concat comp_def length_entry sum_list_triv)
  have c0: "0 < unat c" using fit n0 by (cases "unat c") auto
  let ?i0 = "\<lparr>idx_file = f, idx_mmap = resize (unat c) [], idx_size = of_nat (length ([] :: byte list))\<rparr>"
  from newIndex_no_fault [OF nf empty c c0] obtain w1 where
    o1: "newIndex f c w = (Inr ?i0, w1)" and nf1: "sched w1 = []"
    and f1: "files w1 f = Some (resize (unat c) [])"
    by blast
  have wf0: "wf_index ?i0" using c by (simp add: wf_index_def length_resize)
  have "fst (write_all ?i0 es) = None"
    by (rule write_all_fits [OF wf0]) (simp add: length_resize fit)
  then obtain i1 where wa: "write_all ?i0 es = (None, i1)" by (metis prod.collapse)
  from write_all_result [OF wf0 wa]
  have i1: "i1 = \<lparr>idx_file = f, idx_mmap = ?E @ drop (12 * ?n) (resize (unat c) []),
                   idx_size = of_nat (12 * ?n)\<rparr>"
    by simp
  have "12 * ?n < 2 ^ 64" using fit c by simp
  then have sz1: "unat (idx_size i1) = 12 * ?n"
    by (simp add: i1 unat_of_nat del: of_nat_mult)
  have lm1: "length (idx_mmap i1) = unat c"
    using fit by (simp add: i1 lE length_resize)
  have f1': "files w1 (idx_file i1) = Some (resize (unat c) [])" using f1 by (simp add: i1)
  have s63: "unat (idx_size i1) < 2 ^ 63" using sz1 fit c by simp
  from index_Close_no_fault [OF nf1 f1' s63] obtain w2 where
    cl: "index_Close i1 w1 = (None, w2)" and nf2: "sched w2 = []"
    and f2: "files w2 (idx_file i1) = Some (resize (unat (idx_size i1))
               (take (length (resize (unat c) [])) (idx_mmap i1)
                 @ drop (length (idx_mmap i1)) (resize (unat c) [])))"
    by blast
  have "take (length (resize (unat c) [])) (idx_mmap i1) = idx_mmap i1"
    by (simp add: length_resize lm1)
  moreover have "drop (length (idx_mmap i1)) (resize (unat c) []) = []"
    by (simp add: length_resize lm1)
  moreover have "resize (12 * ?n) (idx_mmap i1) = ?E"
    by (simp add: resize_def i1 lE)
  ultimately have f2': "files w2 f = Some ?E"
    using f2 by (simp add: sz1) (simp add: i1)
  let ?i2 = "\<lparr>idx_file = f, idx_mmap = resize (unat c) ?E, idx_size = of_nat (length ?E)\<rparr>"
  from newIndex_no_fault [OF nf2 f2' c c0] obtain w3 where
    o2: "newIndex f c w2 = (Inr ?i2, w3)"
    by blast
  have m2: "idx_mmap ?i2 = ?E @ replicate (unat c - 12 * ?n) 0"
    using fit by (simp add: resize_def lE)
  have sz2: "unat (idx_size ?i2) = 12 * ?n"
    using \<open>12 * ?n < 2 ^ 64\<close> by (simp add: lE unat_of_nat del: of_nat_mult)
  have "idx_size ?i2 = of_nat (12 * ?n)" by (simp add: lE del: of_nat_mult)
  then have li: "unat (ucast (idx_size ?i2 div totWidth - 1) :: uint32) = ?n - 1"
    using last_index [OF n0 le] by (simp add: totWidth_def offWidth_def posWidth_def)
  have "index_Read ?i2 (- 1) = read_entry ?i2 (ucast (idx_size ?i2 div totWidth - 1))"
    by (simp add: index_Read_entry)
  also have "\<dots> = Inr (es ! (?n - 1))"
    using read_entry_written [OF m2 sz2, of "ucast (idx_size ?i2 div totWidth - 1)"] n0
    by (simp only: li)
  also have "\<dots> = Inr (last es)" using ne by (simp add: last_conv_nth)
  finally have rd: "index_Read ?i2 (- 1) = Inr (last es)" .
  show ?thesis
    unfolding reopen_after_close_def
    by (simp only: o1 wa cl o2 rd prod.case sum.case option.case)
qed

section \<open>The index: the scenario of the test\<close>

lemma newIndex_test_world:
  "fst (newIndex ''index_test'' 1024 test_world) = Inr fresh_index"
  by (simp add: newIndex_def os_Stat_def os_Truncate_def gommap_Map_def set_length_def sys_def
        test_world_def fresh_index_def resize_def)

lemma newIndex_test_world_pair:
  "newIndex ''index_test'' 1024 test_world
     = (Inr fresh_index, snd (newIndex ''index_test'' 1024 test_world))"
  using newIndex_test_world by (metis prod.collapse)

lemma newIndex_test_world_full:
  "newIndex ''index_test'' 1024 test_world = (Inr fresh_index, opened_world)"
  by (simp add: newIndex_def os_Stat_def os_Truncate_def gommap_Map_def set_length_def sys_def
        test_world_def fresh_index_def resize_def opened_world_def)

lemma index_Write_fresh: "index_Write fresh_index 0 0 = (None, one_entry_index)"
  by (subst index_Write_cases) (simp_all add: fresh_index_def one_entry_index_def)

lemma index_Write_one: "index_Write one_entry_index 1 10 = (None, two_entry_index)"
  by (subst index_Write_cases) (simp_all add: two_entry_index_def one_entry_index_def length_entry)

lemma write_all_fresh: "write_all fresh_index [(0, 0), (1, 10)] = (None, two_entry_index)"
  by (simp add: index_Write_fresh index_Write_one)

lemma wf_fresh_index: "wf_index fresh_index"
  by (simp add: wf_index_def fresh_index_def)

lemma write_85:
  assumes "length es = 85"
  shows "fst (write_all fresh_index es) = None"
    and "fst (index_Write (snd (write_all fresh_index es)) off pos) = Some EOF"
proof -
  show a: "fst (write_all fresh_index es) = None"
    by (rule write_all_fits [OF wf_fresh_index]) (simp add: assms fresh_index_def)
  then have "write_all fresh_index es = (None, snd (write_all fresh_index es))"
    by (metis prod.collapse)
  from write_all_result [OF wf_fresh_index this]
  have i: "snd (write_all fresh_index es)
      = fresh_index\<lparr>idx_mmap := concat (map entry es) @ drop 1020 (idx_mmap fresh_index),
                     idx_size := 1020\<rparr>"
    by (simp add: assms fresh_index_def)
  have l: "length (concat (map entry es)) = 1020"
    by (simp add: length_concat comp_def length_entry sum_list_triv assms)
  show "fst (index_Write (snd (write_all fresh_index es)) off pos) = Some EOF"
    unfolding i by (subst index_Write_cases) (simp_all add: fresh_index_def l)
qed

lemma index_Close_two_entries:
  "index_Close two_entry_index opened_world = (None, closed_world)"
  by (simp add: index_Close_def gommap_Sync_def File_Sync_def File_Truncate_def File_Close_def
        set_length_def sys_def opened_world_def closed_world_def two_entry_index_def resize_def
        length_entry)

lemma newIndex_closed_world:
  "fst (newIndex ''index_test'' 1024 closed_world) = Inr two_entry_index"
  by (simp add: newIndex_def os_Stat_def os_Truncate_def gommap_Map_def set_length_def sys_def
        closed_world_def two_entry_index_def resize_def length_entry)

lemma index_Read_last_two: "index_Read two_entry_index (- 1) = Inr (1, 10)"
  by (simp add: index_Read_entry read_entry_def two_entry_index_def length_entry entry_def
       Uint32_PutUint32 Uint64_PutUint64 length_PutUint32 length_PutUint64
       totWidth_def offWidth_def posWidth_def)

section \<open>The buffered writer\<close>

lemma Flush_ok:
  assumes "Flush b w = (None, b', w')"
  shows "werr b = None" and "b' = b\<lparr>wbuf := []\<rparr>"
    and "appends_to w (wr b) d \<Longrightarrow> appends_to w' (wr b) (d @ wbuf b)"
proof -
  show e: "werr b = None" using assms by (auto simp: Flush_def split: option.splits)
  show "b' = b\<lparr>wbuf := []\<rparr>"
    using assms e
    by (auto simp: Flush_def Buffered_def split: option.splits prod.splits if_splits)
  show "appends_to w' (wr b) (d @ wbuf b)" if d: "appends_to w (wr b) d"
  proof (cases "wbuf b = []")
    case True
    then show ?thesis using assms e d by (simp add: Flush_def Buffered_def)
  next
    case False
    obtain n err w1 where fw: "File_Write (wr b) (wbuf b) w = ((n, err), w1)"
      by (metis prod.collapse)
    from assms e False fw have "err = None" "w' = w1"
      by (auto simp: Flush_def Buffered_def split: option.splits if_splits)
    with File_Write_ok [OF _ d] fw show ?thesis by simp
  qed
qed

lemma Flush_err:
  "Flush b w = (Some e, b', w') \<Longrightarrow> werr b' \<noteq> None"
  by (auto simp: Flush_def Buffered_def split: option.splits prod.splits if_splits)


lemma Flush_wr: "Flush b w = (r, b', w') \<Longrightarrow> wr b' = wr b"
  by (auto simp: Flush_def Buffered_def split: option.splits prod.splits if_splits)

lemma Flush_fault_free:
  assumes "fault_free w" and "werr b = None" and "appends_to w (wr b) d"
  obtains w' where "Flush b w = (None, b\<lparr>wbuf := []\<rparr>, w')"
    "appends_to w' (wr b) (d @ wbuf b)" "fault_free w'"
proof (cases "wbuf b = []")
  case True
  then have "Flush b w = (None, b\<lparr>wbuf := []\<rparr>, w)"
    using assms(2) by (simp add: Flush_def Buffered_def)
  then show ?thesis using assms True by (intro that [of w]) simp_all
next
  case False
  obtain w1 where a: "File_Write (wr b) (wbuf b) w = ((length (wbuf b), None), w1)"
    "appends_to w1 (wr b) (d @ wbuf b)" "fault_free w1"
    using assms(1,3) by (rule File_Write_fault_free)
  have "Flush b w = (None, b\<lparr>wbuf := []\<rparr>, w1)"
    using assms(2) False a(1) by (simp add: Flush_def Buffered_def)
  then show ?thesis using a by (intro that [of w1])
qed

lemma bufio_Write_fits:
  "length p \<le> Available b \<Longrightarrow> werr b = None \<Longrightarrow>
   bufio_Write b p nn w = ((nn + length p, None), b\<lparr>wbuf := wbuf b @ p\<rparr>, w)"
  by (subst bufio_Write.simps) simp

lemma bufio_Write_ok:
  assumes "bufio_Write b p nn w = ((n, None), b', w')"
  shows "n = nn + length p \<and> werr b = None \<and> werr b' = None \<and> wr b' = wr b \<and>
         (\<forall>d. appends_to w (wr b) d \<longrightarrow>
            (\<exists>d'. appends_to w' (wr b) d' \<and> d' @ wbuf b' = d @ wbuf b @ p))"
  using assms
proof (induction b p nn w rule: bufio_Write.induct)
  case (1 b p nn w)
  show ?case
  proof (cases "length p > Available b \<and> werr b = None")
    case False
    with "1.prems" show ?thesis
      by (subst (asm) bufio_Write.simps) (auto split: option.splits)
  next
    case loop: True
    show ?thesis
    proof (cases "Buffered b = 0")
      case True
      obtain n0 err w1 where fw: "File_Write (wr b) p w = ((n0, err), w1)"
        by (metis prod.collapse)
      have rec: "bufio_Write (b\<lparr>werr := err\<rparr>) (drop n0 p) (nn + n0) w1 = ((n, None), b', w')"
        using "1.prems" loop True fw by (subst (asm) bufio_Write.simps) simp
      note ih = "1.IH"(1) [OF loop True fw [symmetric] refl rec]
      from ih have err: "err = None" by simp
      with File_Write_count [OF fw] have n0: "n0 = length p" by simp
      have buf: "wbuf b = []" using True by (simp add: Buffered_def)
      have "\<exists>d'. appends_to w' (wr b) d' \<and> d' @ wbuf b' = d @ wbuf b @ p"
        if d: "appends_to w (wr b) d" for d
      proof -
        have "appends_to w1 (wr b) (d @ p)"
          using File_Write_ok [OF _ d] fw err by simp
        with ih show ?thesis by (simp add: n0 buf)
      qed
      with ih loop show ?thesis by (simp add: n0)
    next
      case False
      let ?a = "Available b"
      let ?b0 = "b\<lparr>wbuf := wbuf b @ take ?a p\<rparr>"
      obtain err b1 w1 where fl: "Flush ?b0 w = (err, b1, w1)"
        by (metis prod.collapse)
      have rec: "bufio_Write b1 (drop ?a p) (nn + ?a) w1 = ((n, None), b', w')"
        using "1.prems" loop False fl by (subst (asm) bufio_Write.simps) simp
      note ih = "1.IH"(2) [OF loop False fl [symmetric] refl rec]
      have err: "err = None"
        using ih Flush_err [of ?b0 w _ b1 w1] fl by (cases err) auto
      note ok = Flush_ok [OF fl [unfolded err]]
      have wr1: "wr b1 = wr b" using ok(2) by simp
      have "\<exists>d'. appends_to w' (wr b) d' \<and> d' @ wbuf b' = d @ wbuf b @ p"
        if d: "appends_to w (wr b) d" for d
      proof -
        have "appends_to w1 (wr b1) (d @ wbuf b @ take ?a p)"
          using ok(3) [of d] d wr1 by simp
        with ih obtain d' where "appends_to w' (wr b1) d'"
          "d' @ wbuf b' = (d @ wbuf b @ take ?a p) @ wbuf b1 @ drop ?a p"
          by blast
        then show ?thesis using ok(2) wr1 by auto
      qed
      moreover have "nn + ?a + length (drop ?a p) = nn + length p"
        using loop by simp
      ultimately show ?thesis using ih loop wr1 by simp
    qed
  qed
qed

lemma bufio_Write_wr: "bufio_Write b p nn w = (r, b', w') \<Longrightarrow> wr b' = wr b"
proof (induction b p nn w rule: bufio_Write.induct)
  case (1 b p nn w)
  show ?case
  proof (cases "length p > Available b \<and> werr b = None")
    case False
    with "1.prems" show ?thesis
      by (subst (asm) bufio_Write.simps) (auto split: option.splits)
  next
    case loop: True
    show ?thesis
    proof (cases "Buffered b = 0")
      case True
      obtain n0 err w1 where fw: "File_Write (wr b) p w = ((n0, err), w1)"
        by (metis prod.collapse)
      have rec: "bufio_Write (b\<lparr>werr := err\<rparr>) (drop n0 p) (nn + n0) w1 = (r, b', w')"
        using "1.prems" loop True fw by (subst (asm) bufio_Write.simps) simp
      from "1.IH"(1) [OF loop True fw [symmetric] refl rec] show ?thesis by simp
    next
      case False
      let ?a = "Available b"
      obtain err b1 w1 where fl: "Flush (b\<lparr>wbuf := wbuf b @ take ?a p\<rparr>) w = (err, b1, w1)"
        by (metis prod.collapse)
      have rec: "bufio_Write b1 (drop ?a p) (nn + ?a) w1 = (r, b', w')"
        using "1.prems" loop False fl by (subst (asm) bufio_Write.simps) simp
      from "1.IH"(2) [OF loop False fl [symmetric] refl rec] Flush_wr [OF fl]
      show ?thesis by simp
    qed
  qed
qed

lemma bufio_Write_err:
  "bufio_Write b p nn w = ((n, Some e), b', w') \<Longrightarrow> werr b' = Some e"
proof (induction b p nn w rule: bufio_Write.induct)
  case (1 b p nn w)
  show ?case
  proof (cases "length p > Available b \<and> werr b = None")
    case False
    with "1.prems" show ?thesis
      by (subst (asm) bufio_Write.simps) (auto split: option.splits)
  next
    case loop: True
    show ?thesis
    proof (cases "Buffered b = 0")
      case True
      obtain n0 err w1 where fw: "File_Write (wr b) p w = ((n0, err), w1)"
        by (metis prod.collapse)
      have rec: "bufio_Write (b\<lparr>werr := err\<rparr>) (drop n0 p) (nn + n0) w1 = ((n, Some e), b', w')"
        using "1.prems" loop True fw by (subst (asm) bufio_Write.simps) simp
      from "1.IH"(1) [OF loop True fw [symmetric] refl rec] show ?thesis .
    next
      case False
      let ?a = "Available b"
      obtain err b1 w1 where fl: "Flush (b\<lparr>wbuf := wbuf b @ take ?a p\<rparr>) w = (err, b1, w1)"
        by (metis prod.collapse)
      have rec: "bufio_Write b1 (drop ?a p) (nn + ?a) w1 = ((n, Some e), b', w')"
        using "1.prems" loop False fl by (subst (asm) bufio_Write.simps) simp
      from "1.IH"(2) [OF loop False fl [symmetric] refl rec] show ?thesis .
    qed
  qed
qed

lemma binary_Write_ok:
  assumes "binary_Write b v w = (None, b', w')"
  shows "werr b = None" and "werr b' = None" and "wr b' = wr b"
    and "appends_to w (wr b) d \<Longrightarrow>
           \<exists>d'. appends_to w' (wr b) d' \<and> d' @ wbuf b' = d @ wbuf b @ PutUint64 v"
proof -
  obtain n where a: "bufio_Write b (PutUint64 v) 0 w = ((n, None), b', w')"
    using assms by (auto simp: binary_Write_def split: prod.splits)
  note r = bufio_Write_ok [OF a]
  from r show "werr b = None" and "werr b' = None" and "wr b' = wr b" by simp_all
  from r show "\<exists>d'. appends_to w' (wr b) d' \<and> d' @ wbuf b' = d @ wbuf b @ PutUint64 v"
    if "appends_to w (wr b) d" using that by blast
qed

section \<open>The store\<close>

text \<open>What a successful \<open>Append\<close> returns and leaves behind.\<close>

lemma store_Append_ok:
  assumes "store_Append s p w = (Inr (n, pos), s', w')"
  shows "n = of_nat (length p + 8)" and "pos = st_size s"
    and "st_size s' = st_size s + of_nat (length p + 8)"
    and "st_file s' = st_file s" and "werr (st_buf s) = None" and "werr (st_buf s') = None"
    and "wr (st_buf s') = wr (st_buf s)"
    and "appends_to w (wr (st_buf s)) d \<Longrightarrow>
           \<exists>d'. appends_to w' (wr (st_buf s)) d' \<and>
             d' @ wbuf (st_buf s') = d @ wbuf (st_buf s) @ PutUint64 (of_nat (length p)) @ p"
proof -
  from assms obtain b1 w1 k b2 where
    bw: "binary_Write (st_buf s) (of_nat (length p)) w = (None, b1, w1)"
    and wp: "bufio_Write b1 p 0 w1 = ((k, None), b2, w')"
    and res: "n = of_nat (k + lenWidth)" "pos = st_size s"
      "s' = s\<lparr>st_buf := b2, st_size := st_size s + of_nat (k + lenWidth)\<rparr>"
    by (auto simp: store_Append_def Let_def split: prod.splits option.splits)
  note r1 = binary_Write_ok [OF bw]
  note r2 = bufio_Write_ok [OF wp]
  have k: "k = length p" using r2 by simp
  show "n = of_nat (length p + 8)" using res(1) k by (simp add: lenWidth_def)
  show "pos = st_size s" by (rule res(2))
  show "st_size s' = st_size s + of_nat (length p + 8)" using res(3) k by (simp add: lenWidth_def)
  show "st_file s' = st_file s" using res(3) by simp
  show "werr (st_buf s) = None" by (rule r1(1))
  show "werr (st_buf s') = None" using res(3) r2 by simp
  show "wr (st_buf s') = wr (st_buf s)" using res(3) r2 r1(3) by simp
  show "\<exists>d'. appends_to w' (wr (st_buf s)) d' \<and>
             d' @ wbuf (st_buf s') = d @ wbuf (st_buf s) @ PutUint64 (of_nat (length p)) @ p"
    if d: "appends_to w (wr (st_buf s)) d"
  proof -
    from r1(4) [OF d] obtain d1 where d1: "appends_to w1 (wr (st_buf s)) d1"
      "d1 @ wbuf b1 = d @ wbuf (st_buf s) @ PutUint64 (of_nat (length p))"
      by blast
    from r2 d1(1) r1(3) obtain d2 where "appends_to w' (wr b1) d2"
      "d2 @ wbuf b2 = d1 @ wbuf b1 @ p"
      by auto
    then show ?thesis using d1(2) r1(3) res(3) by auto
  qed
qed

text \<open>A failed \<open>Append\<close> leaves \<open>size\<close> as it was, and the writer failed for good.\<close>

lemma store_Append_failed:
  assumes "store_Append s p w = (Inl e, s', w')"
  shows "st_size s' = st_size s" and "st_file s' = st_file s"
    and "werr (st_buf s') = Some e" and "wr (st_buf s') = wr (st_buf s)"
proof -
  from assms consider
    b1 w1 where "binary_Write (st_buf s) (of_nat (length p)) w = (Some e, b1, w1)"
      "s' = s\<lparr>st_buf := b1\<rparr>"
  | b1 w1 n b2 where "binary_Write (st_buf s) (of_nat (length p)) w = (None, b1, w1)"
      "bufio_Write b1 p 0 w1 = ((n, Some e), b2, w')" "s' = s\<lparr>st_buf := b2\<rparr>"
    by (auto simp: store_Append_def Let_def split: prod.splits option.splits)
  then have "st_size s' = st_size s \<and> st_file s' = st_file s
      \<and> werr (st_buf s') = Some e \<and> wr (st_buf s') = wr (st_buf s)"
  proof cases
    case 1
    from 1(1) obtain n where a: "bufio_Write (st_buf s) (PutUint64 (of_nat (length p))) 0 w
        = ((n, Some e), b1, w1)"
      by (auto simp: binary_Write_def split: prod.splits)
    from bufio_Write_err [OF a] bufio_Write_wr [OF a] 1(2) show ?thesis by simp
  next
    case 2
    from bufio_Write_err [OF 2(2)] bufio_Write_wr [OF 2(2)] binary_Write_ok(3) [OF 2(1)] 2(3)
    show ?thesis by simp
  qed
  then show "st_size s' = st_size s" and "st_file s' = st_file s"
    and "werr (st_buf s') = Some e" and "wr (st_buf s') = wr (st_buf s)"
    by simp_all
qed



text \<open>The invariant holds for a store as \<open>newStore\<close> returns it, and \<open>Append\<close> keeps it
  as long as the file stays within the range of a file offset.\<close>

lemma newStore_inv:
  assumes "newStore f w = (Inr s, w')" and "files w f = Some d" and "at_end w f"
    and "length d < 2 ^ 63"
  shows "store_inv s w'"
proof -
  from assms(1) obtain sz where st: "os_Stat f w = (Inr sz, w')"
    and s: "s = \<lparr>st_file = f, st_buf = NewWriter f, st_size = of_nat sz\<rparr>"
    by (auto simp: newStore_def split: prod.splits sum.splits)
  have sz: "sz = length d" and f: "files w' = files w"
    using os_Stat_Inr [OF st] assms(2) by simp_all
  have o: "offsets w' = offsets w" using offsets_os_Stat [of f w] st by simp
  have e: "at_end w' f" using assms(3) by (auto simp: at_end_def f o split: position.splits)
  have "length d < 2 ^ 64" using assms(4) by simp
  then have "unat (of_nat (length d) :: uint64) = length d" by (simp add: unat_of_nat)
  then show ?thesis using assms(2) e by (simp add: store_inv_def s sz f NewWriter_def)
qed

lemma store_Append_inv:
  assumes "store_inv s w" and "store_Append s p w = (r, s', w')"
    and "unat (st_size s) + 8 + length p < 2 ^ 63"
  shows "store_inv s' w'"
proof (cases r)
  case (Inl e)
  from store_Append_failed [OF assms(2) [unfolded Inl]] assms(1)
  show ?thesis by (simp add: store_inv_def)
next
  case (Inr np)
  obtain n pos where np: "np = (n, pos)" by (cases np)
  note a = store_Append_ok [OF assms(2) [unfolded Inr np]]
  have wr: "wr (st_buf s) = st_file s" using assms(1) by (simp add: store_inv_def)
  from assms(1) a(5) obtain d where d: "appends_to w (st_file s) d"
    and sz: "unat (st_size s) = length d + length (wbuf (st_buf s))"
    by (auto simp: store_inv_def appends_to_def split: option.splits)
  from a(8) [of d] d wr obtain d' where d': "appends_to w' (st_file s) d'"
    and fr: "d' @ wbuf (st_buf s') = d @ wbuf (st_buf s) @ PutUint64 (of_nat (length p)) @ p"
    by auto
  from fr have "length (d' @ wbuf (st_buf s'))
      = length (d @ wbuf (st_buf s) @ PutUint64 (of_nat (length p)) @ p)"
    by (rule arg_cong)
  then have len: "length d' + length (wbuf (st_buf s')) = unat (st_size s) + 8 + length p"
    using sz by (simp add: length_PutUint64)
  have "length p + 8 < 2 ^ 64" using assms(3) by simp
  then have ul: "unat (of_nat (length p + 8) :: uint64) = length p + 8"
    by (simp only: unat_of_nat) simp
  have "unat (st_size s) + unat (of_nat (length p + 8) :: uint64) < 2 ^ LENGTH(64)"
    unfolding ul using assms(3) by simp
  then have "unat (st_size s + of_nat (length p + 8))
      = unat (st_size s) + unat (of_nat (length p + 8) :: uint64)"
    by (rule unat_add_lem [THEN iffD1])
  then have "unat (st_size s') = length d' + length (wbuf (st_buf s'))"
    unfolding ul using a(3) len by simp
  then show ?thesis using d' a(4) a(7) wr by (simp add: store_inv_def appends_to_def)
qed

lemma store_Read_inv:
  assumes "store_inv s w" and "store_Read s pos w = (r, s', w')"
  shows "store_inv s' w'"
proof -
  obtain e b1 w1 where fl: "Flush (st_buf s) w = (e, b1, w1)" by (metis prod.collapse)
  have wr: "wr (st_buf s) = st_file s" using assms(1) by (simp add: store_inv_def)
  have s': "s' = s\<lparr>st_buf := b1\<rparr>"
    using assms(2) fl
    by (auto simp: store_Read_def split: option.splits prod.splits if_splits)
  have wr1: "wr b1 = st_file s" using Flush_wr [OF fl] wr by simp
  show ?thesis
  proof (cases e)
    case (Some x)
    with Flush_err [of "st_buf s" w x b1 w1] fl show ?thesis
      by (auto simp: store_inv_def s' wr1)
  next
    case None
    note ok = Flush_ok [OF fl [unfolded None]]
    from assms(1) ok(1) obtain d where d: "appends_to w (st_file s) d"
      and sz: "unat (st_size s) = length d + length (wbuf (st_buf s))"
      by (auto simp: store_inv_def appends_to_def split: option.splits)
    have f1: "appends_to w1 (st_file s) (d @ wbuf (st_buf s))"
      using ok(3) [of d] d wr by simp
    obtain sz1 e1 w2 where ra: "File_ReadAt (st_file s) lenWidth (sint pos) w1 = ((sz1, e1), w2)"
      by (metis prod.collapse)
    have f2: "files w2 = files w1" "offsets w2 = offsets w1"
      using files_File_ReadAt [of "st_file s" lenWidth "sint pos" w1]
        offsets_File_ReadAt [of "st_file s" lenWidth "sint pos" w1] ra by simp_all
    obtain r2 w3 where rb: "File_ReadAt (st_file s) (unat (Uint64 sz1))
        (sint (pos + of_nat lenWidth)) w2 = (r2, w3)"
      by (metis prod.collapse)
    have f3: "files w3 = files w2" "offsets w3 = offsets w2"
      using files_File_ReadAt [of "st_file s" "unat (Uint64 sz1)" "sint (pos + of_nat lenWidth)" w2]
        offsets_File_ReadAt [of "st_file s" "unat (Uint64 sz1)" "sint (pos + of_nat lenWidth)" w2]
        rb by simp_all
    have "w' = w2 \<or> w' = w3"
      using assms(2)
      by (auto simp: store_Read_def fl None ra rb split: option.splits prod.splits if_splits)
    with f2 f3 have "files w' = files w1" "offsets w' = offsets w1" by auto
    then have "appends_to w' (st_file s) (d @ wbuf (st_buf s))
        = appends_to w1 (st_file s) (d @ wbuf (st_buf s))"
      by (rule appends_to_cong)
    with f1 have "appends_to w' (st_file s) (d @ wbuf (st_buf s))" by simp
    with sz ok(2) show ?thesis by (simp add: store_inv_def appends_to_def s' wr)
  qed
qed

text \<open>Once the writer has failed, every later \<open>Append\<close> and \<open>Read\<close> fails with the same
  error: the bytes a failed \<open>Append\<close> left in the buffer are never read back.\<close>

lemma store_failed_for_good:
  assumes "werr (st_buf s) = Some e"
  shows "fst (store_Append s p w) = Inl e" and "fst (store_Read s pos w) = Inl e"
proof -
  have "bufio_Write (st_buf s) q 0 w = ((0, Some e), st_buf s, w)" for q
    using assms by (subst bufio_Write.simps) simp
  then show "fst (store_Append s p w) = Inl e"
    by (simp add: store_Append_def binary_Write_def)
  show "fst (store_Read s pos w) = Inl e"
    using assms by (simp add: store_Read_def Flush_def)
qed

text \<open>With no failing system call, \<open>Close\<close> leaves every appended byte in the file.\<close>

lemma store_Close_flushes:
  assumes "fault_free w" and "werr (st_buf s) = None" and "wr (st_buf s) = st_file s"
    and "appends_to w (st_file s) d"
  shows "fst (store_Close s w) = None"
    and "files (snd (snd (store_Close s w))) (st_file s) = Some (d @ wbuf (st_buf s))"
proof -
  obtain w1 where fl: "Flush (st_buf s) w = (None, (st_buf s)\<lparr>wbuf := []\<rparr>, w1)"
    and a1: "appends_to w1 (st_file s) (d @ wbuf (st_buf s))" and ff1: "fault_free w1"
    using Flush_fault_free [OF assms(1,2), of d] assms(3,4) by auto
  have f1: "files w1 (st_file s) = Some (d @ wbuf (st_buf s))"
    using a1 by (simp add: appends_to_def)
  obtain w2 where c: "sys (SysClose (st_file s)) w1 = (Succeeds, w2)" and f2: "files w2 = files w1"
    using ff1 by (rule sys_fault_free)
  show "fst (store_Close s w) = None"
    by (simp add: store_Close_def fl File_Close_def c)
  show "files (snd (snd (store_Close s w))) (st_file s) = Some (d @ wbuf (st_buf s))"
    using f1 f2 by (simp add: store_Close_def fl File_Close_def c)
qed

section \<open>The store: the scenario\<close>

lemma newStore_store_world:
  "fst (newStore ''store_test'' store_world) = Inr empty_store"
  by (simp add: newStore_def os_Stat_def sys_def store_world_def empty_store_def)

lemma store_Append_hello:
  "store_Append empty_store (bytes ''hello world'') w = (Inr (19, 0), store_hello, w)"
  by (simp add: store_Append_def binary_Write_def bufio_Write_fits Available_def
        defaultBufSize_def empty_store_def NewWriter_def length_PutUint64 length_bytes
        lenWidth_def store_hello_def)

lemma store_Append_foo:
  "store_Append store_hello (bytes ''foo'') w = (Inr (11, 19), store_hello_foo, w)"
  by (simp add: store_Append_def binary_Write_def bufio_Write_fits Available_def
        defaultBufSize_def length_PutUint64 length_bytes
        lenWidth_def store_hello_def store_hello_foo_def)

lemma newStore_appending:
  "newStore ''store_test'' (reopened_world\<lparr>offsets := (\<lambda>f. AtEnd)\<rparr>)
     = (Inr reopened_store, appending_world)"
  by (simp add: newStore_def os_Stat_def sys_def reopened_world_def restarted_world_def
        appending_world_def reopened_store_def length_PutUint64 length_bytes)


lemma store_Append_fails:
  "fst (store_Append empty_store (replicate 5000 0) failing_store_world) = Inl (OSError 5)"
  by (simp add: store_Append_def binary_Write_def bufio_Write_fits Available_def
        defaultBufSize_def empty_store_def NewWriter_def length_PutUint64
        bufio_Write.simps [of _ "replicate 5000 0"] bufio_Write.simps [of _ "replicate 912 0"]
        Buffered_def Flush_def File_Write_def sys_def failing_store_world_def)

section \<open>The claims about the store\<close>




text \<open>
  Claim C2. A successful \<open>Append(p)\<close> returns \<open>8 + len(p)\<close> bytes written and, as the
  position, the size before the call, and it adds \<open>8 + len(p)\<close> to the size (in 64-bit
  arithmetic, and exactly when \<open>8 + len(p)\<close> fits). So of two consecutive successful
  appends the second returns the first position plus \<open>8 + len(p1)\<close>. On an empty store,
  appending \<open>hello world\<close> returns \<open>(19, 0)\<close> and then appending \<open>foo\<close> returns
  \<open>(11, 19)\<close>.
\<close>

theorem store_Append_result:
  "(store_Append s p w = (Inr (n, pos), s', w') \<longrightarrow>
      n = 8 + of_nat (length p) \<and> pos = st_size s
      \<and> st_size s' = st_size s + 8 + of_nat (length p)
      \<and> (8 + length p < 2 ^ 64 \<longrightarrow> unat n = 8 + length p))
   \<and> (store_Append s p1 w = (Inr (n1, pos1), s1, w1)
      \<and> store_Append s1 p2 w1 = (Inr (n2, pos2), s2, w2) \<longrightarrow>
        pos2 = pos1 + 8 + of_nat (length p1))
   \<and> fst (newStore ''store_test'' store_world) = Inr empty_store
   \<and> fst (store_Append empty_store (bytes ''hello world'') w0) = Inr (19, 0)
   \<and> fst (snd (store_Append empty_store (bytes ''hello world'') w0)) = store_hello
   \<and> fst (store_Append store_hello (bytes ''foo'') w0') = Inr (11, 19)"
proof -
  have a: "n = 8 + of_nat (length p) \<and> pos = st_size s
      \<and> st_size s' = st_size s + 8 + of_nat (length p)
      \<and> (8 + length p < 2 ^ 64 \<longrightarrow> unat n = 8 + length p)"
    if h: "store_Append s p w = (Inr (n, pos), s', w')"
  proof -
    note r = store_Append_ok(1-3) [OF h]
    have "unat n = 8 + length p" if "8 + length p < 2 ^ 64"
    proof -
      have "unat (of_nat (length p + 8) :: uint64) = length p + 8"
        using that by (simp only: unat_of_nat) simp
      then show ?thesis using r(1) by simp
    qed
    with r show ?thesis by simp
  qed
  have b: "pos2 = pos1 + 8 + of_nat (length p1)"
    if h1: "store_Append s p1 w = (Inr (n1, pos1), s1, w1)"
      and h2: "store_Append s1 p2 w1 = (Inr (n2, pos2), s2, w2)"
    using store_Append_ok(2,3) [OF h1] store_Append_ok(2) [OF h2] by simp
  show ?thesis
    using a b newStore_store_world
    by (simp add: store_Append_hello store_Append_foo)
qed

text \<open>The theorem at the two appends of the scenario.\<close>

theorem store_Append_result_witness:
  "store_Append empty_store (bytes ''hello world'') store_world = (Inr (19, 0), store_hello, store_world)
   \<and> store_Append store_hello (bytes ''foo'') store_world = (Inr (11, 19), store_hello_foo, store_world)
   \<and> (19 :: uint64) = 8 + of_nat (length (bytes ''hello world''))
   \<and> st_size store_hello = st_size empty_store + 8 + of_nat (length (bytes ''hello world''))
   \<and> (19 :: uint64) = 0 + 8 + of_nat (length (bytes ''hello world''))"
  using store_Append_result [where s = empty_store and p = "bytes ''hello world''"
      and w = store_world and n = 19 and pos = 0 and s' = store_hello and w' = store_world
      and ?p1.0 = "bytes ''hello world''" and ?n1.0 = 19 and ?pos1.0 = 0 and ?s1.0 = store_hello
      and ?w1.0 = store_world and ?p2.0 = "bytes ''foo''" and ?n2.0 = 11 and ?pos2.0 = 19
      and ?s2.0 = store_hello_foo and ?w2.0 = store_world]
    store_Append_hello [of store_world] store_Append_foo [of store_world]
  by simp

section \<open>The claims about the index\<close>

text \<open>
  Claim C3, amended. Entries \<open>es\<close> (for the claim: with the relative offsets
  \<open>0, 1, ..., n-1\<close>, \<open>1 \<le> n \<le> 2^32\<close>) are written in order to an index freshly
  opened on an empty file. Then \<open>Read(k)\<close> returns exactly the pair written at step \<open>k\<close>
  for every \<open>k < n\<close>, \<open>Read(-1)\<close> returns the same as \<open>Read(n-1)\<close>, and \<open>Read(k)\<close>
  fails with \<open>io.EOF\<close> for every \<open>k\<close> with \<open>n \<le> k < 2^32\<close>.
\<close>

theorem index_Read_after_writes:
  assumes "newIndex f c w = (Inr i0, w')" and "files w f = Some []"
    and "write_all i0 es = (None, i)" and "es \<noteq> []" and "length es \<le> 2 ^ 32"
  shows "(\<forall>k < length es. index_Read i (of_nat k) = Inr (es ! k))
       \<and> index_Read i (- 1) = index_Read i (of_nat (length es - 1))
       \<and> (\<forall>k. length es \<le> k \<and> k < 2 ^ 32 \<longrightarrow> index_Read i (of_nat k) = Inl EOF)"
proof -
  note r = newIndex_result [OF assms(1,2)]
  have wf: "wf_index i0"
    using r by (simp add: wf_index_def length_resize)
  let ?n = "length es"
  from write_all_result [OF wf assms(3)] r(1)
  have fit: "12 * ?n \<le> unat c"
    and i: "i = i0\<lparr>idx_mmap := concat (map entry es) @ drop (12 * ?n) (idx_mmap i0),
                     idx_size := of_nat (12 * ?n)\<rparr>"
    by (simp_all add: length_resize)
  have m: "idx_mmap i = concat (map entry es) @ drop (12 * ?n) (idx_mmap i0)"
    by (simp add: i)
  have "12 * ?n < 2 ^ 64" using fit r(2) by simp
  then have sz: "unat (idx_size i) = 12 * ?n"
    by (simp add: i unat_of_nat del: of_nat_mult)
  have n0: "0 < ?n" using assms(4) by simp
  have rd: "index_Read i (of_nat k) = read_entry i (ucast (of_nat k :: uint64))" if "k < 2 ^ 32" for k
    using of_nat_neq_minus1 [OF that] by (simp add: index_Read_entry)
  have inr: "index_Read i (of_nat k) = Inr (es ! k)" if "k < ?n" for k
  proof -
    have k: "k < 2 ^ 32" using that assms(5) by simp
    have u: "unat (ucast (of_nat k :: uint64) :: uint32) = k" by (rule ucast_of_nat_32 [OF k])
    from read_entry_written [OF m sz, of "ucast (of_nat k :: uint64)"] that
    show ?thesis by (simp only: rd [OF k] u)
  qed
  have eof: "index_Read i (of_nat k) = Inl EOF" if "?n \<le> k" "k < 2 ^ 32" for k
  proof -
    have u: "unat (ucast (of_nat k :: uint64) :: uint32) = k" by (rule ucast_of_nat_32 [OF that(2)])
    show ?thesis
      unfolding rd [OF that(2)]
      by (rule read_entry_beyond) (use that sz u in simp)
  qed
  have ne: "idx_size i \<noteq> 0"
    using sz n0 by (auto simp: unat_eq_0 [symmetric] simp del: unat_eq_0)
  have "idx_size i = of_nat (12 * ?n)" by (simp add: i)
  then have li: "unat (ucast (idx_size i div totWidth - 1) :: uint32) = ?n - 1"
    using last_index [OF n0 assms(5)] by (simp add: totWidth_def offWidth_def posWidth_def)
  have "index_Read i (- 1) = read_entry i (ucast (idx_size i div totWidth - 1))"
    by (simp add: index_Read_entry)
  also have "\<dots> = Inr (es ! (?n - 1))"
    using read_entry_written [OF m sz, of "ucast (idx_size i div totWidth - 1)"] n0
    by (simp only: li)
  also have "\<dots> = index_Read i (of_nat (?n - 1))"
    by (rule sym, rule inr) (use n0 in simp)
  finally have last: "index_Read i (- 1) = index_Read i (of_nat (?n - 1))" .
  show ?thesis using inr eof last by blast
qed

text \<open>The theorem at the two entries of \<open>TestIndex\<close>.\<close>

theorem index_Read_after_writes_witness:
  "index_Read two_entry_index 0 = Inr (0, 0) \<and> index_Read two_entry_index 1 = Inr (1, 10)
   \<and> index_Read two_entry_index (- 1) = index_Read two_entry_index 1
   \<and> index_Read two_entry_index 2 = Inl EOF"
proof -
  have f0: "files test_world ''index_test'' = Some []" by (simp add: test_world_def)
  have ne: "[(0 :: uint32, 0 :: uint64), (1, 10)] \<noteq> []" by simp
  have le: "length [(0 :: uint32, 0 :: uint64), (1, 10)] \<le> 2 ^ 32" by simp
  note t = index_Read_after_writes [OF newIndex_test_world_pair f0 write_all_fresh ne le]
  from t have A: "index_Read two_entry_index (of_nat k) = Inr ([(0, 0), (1, 10)] ! k)"
    if "k < 2" for k using that by simp
  from t have B: "index_Read two_entry_index (- 1) = index_Read two_entry_index 1" by simp
  from t have C: "index_Read two_entry_index (of_nat k) = Inl EOF"
    if "2 \<le> k" "k < 2 ^ 32" for k using that by simp
  from A [of 0] A [of 1] B C [of 2] show ?thesis by simp
qed

text \<open>
  Claim C3 as stated fails beyond the 32-bit range: on the index holding the one entry
  \<open>(0, 0)\<close>, the argument \<open>2^32 \<ge> n = 1\<close> does not fail with \<open>io.EOF\<close> but returns
  entry 0.
\<close>

theorem index_Read_past_end_counterexample:
  "fst (newIndex ''index_test'' 1024 test_world) = Inr fresh_index
   \<and> write_all fresh_index [(0, 0)] = (None, one_entry_index)
   \<and> (1 :: int) \<le> sint (4294967296 :: int64)
   \<and> index_Read one_entry_index 4294967296 = Inr (0, 0)
   \<and> index_Read one_entry_index 4294967296 \<noteq> Inl EOF"
  by (simp add: newIndex_test_world index_Write_fresh index_Read_entry read_entry_def
        one_entry_index_def length_entry entry_def Uint32_PutUint32 Uint64_PutUint64
        length_PutUint32 length_PutUint64)

text \<open>
  Claim C4. For an index opened with capacity \<open>maxBytes\<close> (on a file of a length the file
  system can hold), at any later moment \<open>Write\<close> fails with \<open>io.EOF\<close>, the kind that signals
  exhausted capacity and no error of the operating system, if and only if
  \<open>size + 12 > maxBytes\<close>, and succeeds otherwise. With \<open>maxBytes = 1024\<close> on an empty
  file, any 85 writes succeed and the 86th fails with \<open>io.EOF\<close>.
\<close>

theorem index_Write_capacity:
  "(newIndex f c w = (Inr i0, w0) \<and> files w f = Some d \<and> length d < 2 ^ 63
      \<and> i = fst (foldl index_step (i0, w0) ops)
    \<longrightarrow> (fst (index_Write i off pos) = Some EOF \<longleftrightarrow> unat c < unat (idx_size i) + 12)
      \<and> (fst (index_Write i off pos) = None \<longleftrightarrow> unat (idx_size i) + 12 \<le> unat c)
      \<and> fst (index_Write i off pos) \<noteq> Some (OSError e))
   \<and> (length es = 85
    \<longrightarrow> fst (newIndex ''index_test'' 1024 test_world) = Inr fresh_index
      \<and> fst (write_all fresh_index es) = None
      \<and> fst (index_Write (snd (write_all fresh_index es)) off' pos') = Some EOF)"
proof -
  have a: "fst (index_Write i off pos) = (if unat c < unat (idx_size i) + 12 then Some EOF else None)"
    if "newIndex f c w = (Inr i0, w0)" "files w f = Some d" "length d < 2 ^ 63"
      "i = fst (foldl index_step (i0, w0) ops)"
  proof -
    have "in_range c (fst (i0, w0))" using newIndex_in_range [OF that(1-3)] by simp
    from index_run_in_range [OF this, of ops] that(4) have "in_range c i" by simp
    then show ?thesis by (rule index_Write_in_range_cases)
  qed
  show ?thesis
    using a write_85(1) [of es] write_85(2) [of es off' pos'] newIndex_test_world
    by (auto split: if_splits)
qed

text \<open>The theorem at the index of \<open>TestIndex\<close> after its two writes, and after 85 writes.\<close>

theorem index_Write_capacity_witness:
  "fst (index_Write two_entry_index 2 20) = None
   \<and> fst (write_all fresh_index (replicate 85 (7, 9))) = None
   \<and> fst (index_Write (snd (write_all fresh_index (replicate 85 (7, 9)))) 85 1020) = Some EOF"
proof -
  have f0: "files test_world ''index_test'' = Some []" by (simp add: test_world_def)
  have r: "two_entry_index = fst (foldl index_step
      (fresh_index, snd (newIndex ''index_test'' 1024 test_world)) [OpWrite 0 0, OpWrite 1 10])"
    by (simp add: index_Write_fresh index_Write_one)
  have s: "unat (idx_size two_entry_index) + 12 \<le> unat (1024 :: uint64)"
    by (simp add: two_entry_index_def)
  from index_Write_capacity [where f = "''index_test''" and c = 1024 and w = test_world
      and ?i0.0 = fresh_index and ?w0.0 = "snd (newIndex ''index_test'' 1024 test_world)"
      and d = "[]" and i = two_entry_index and ops = "[OpWrite 0 0, OpWrite 1 10]"
      and off = 2 and pos = 20 and es = "replicate 85 (7, 9)" and off' = 85 and pos' = 1020]
    newIndex_test_world_pair f0 r s
  show ?thesis by simp
qed

text \<open>
  Claim C5. The entries \<open>(0,0)\<close> and \<open>(1,10)\<close> are written to an index on an empty file
  with \<open>MaxIndexBytes = 1024\<close>; closing it truncates the file from the 1024 bytes of the
  mapping to the 24 bytes in use; a fresh index opened on the same file with the same
  configuration recovers \<open>size = 24\<close> from the file's length, and \<open>Read(-1)\<close> on it
  returns \<open>(1, 10)\<close>.
\<close>

theorem restart_recovery:
  "reopen_after_close ''index_test'' 1024 [(0, 0), (1, 10)] test_world = Inr (1, 10)
   \<and> newIndex ''index_test'' 1024 test_world = (Inr fresh_index, opened_world)
   \<and> write_all fresh_index [(0, 0), (1, 10)] = (None, two_entry_index)
   \<and> index_Close two_entry_index opened_world = (None, closed_world)
   \<and> files opened_world ''index_test'' = Some (replicate 1024 0)
   \<and> files closed_world ''index_test'' = Some (entry (0, 0) @ entry (1, 10))
   \<and> fst (newIndex ''index_test'' 1024 closed_world) = Inr two_entry_index
   \<and> idx_size two_entry_index = 24
   \<and> index_Read two_entry_index (- 1) = Inr (1, 10)"
proof -
  obtain w3 where r: "newIndex ''index_test'' 1024 closed_world = (Inr two_entry_index, w3)"
    using newIndex_closed_world by (metis prod.collapse)
  have "reopen_after_close ''index_test'' 1024 [(0, 0), (1, 10)] test_world = Inr (1, 10)"
    unfolding reopen_after_close_def
    by (simp only: newIndex_test_world_full write_all_fresh index_Close_two_entries r
          index_Read_last_two prod.case sum.case option.case)
  moreover have "files opened_world ''index_test'' = Some (replicate 1024 0)"
    by (simp add: opened_world_def)
  moreover have "files closed_world ''index_test'' = Some (entry (0, 0) @ entry (1, 10))"
    by (simp add: closed_world_def)
  moreover have "idx_size two_entry_index = 24"
    by (simp add: two_entry_index_def)
  ultimately show ?thesis
    using newIndex_test_world_full write_all_fresh index_Close_two_entries
      newIndex_closed_world index_Read_last_two
    by blast
qed

section \<open>The claim about failed appends\<close>

text \<open>
  Claim C6. When the store's \<open>Append\<close> fails, \<open>size\<close> is what it was before the call;
  when it succeeds, \<open>size\<close> has grown by the whole \<open>8 + len(p)\<close>; there is no state
  between the two. When the index's \<open>Write\<close> fails, its \<open>size\<close> is what it was, and no
  byte of the mapped region has changed: the whole index is as before, on the capacity
  failure and on any failure of an index whose mapped length is a Go \<open>int\<close>.
\<close>

theorem append_atomicity:
  "(store_Append s p w = (Inl e, s', w') \<longrightarrow> st_size s' = st_size s)
   \<and> (store_Append s p w = (Inr r, s', w') \<longrightarrow> st_size s' = st_size s + 8 + of_nat (length p))
   \<and> (index_Write i off pos = (Some e', i') \<longrightarrow>
        idx_size i' = idx_size i \<and> (e' = EOF \<longrightarrow> i' = i)
        \<and> (length (idx_mmap i) < 2 ^ 63 \<longrightarrow> i' = i))"
proof -
  have a: "st_size s' = st_size s" if "store_Append s p w = (Inl e, s', w')"
    using store_Append_failed(1) [OF that] .
  have b: "st_size s' = st_size s + 8 + of_nat (length p)"
    if "store_Append s p w = (Inr r, s', w')"
    using store_Append_ok(3) [of s p w "fst r" "snd r" s' w'] that by simp
  have c: "idx_size i' = idx_size i \<and> (e' = EOF \<longrightarrow> i' = i)"
    if "index_Write i off pos = (Some e', i')"
    using that by (auto simp: index_Write_def put_slice_def split: if_splits sum.splits)
  have d: "i' = i" if "index_Write i off pos = (Some e', i')" "length (idx_mmap i) < 2 ^ 63"
    using that by (rule index_Write_failed_unchanged)
  show ?thesis using a b c d by blast
qed

text \<open>The theorem at an append of 5000 bytes whose flush to the file fails, at a successful
  append, and at a write to the full index of \<open>TestIndex\<close>.\<close>

theorem append_atomicity_witness:
  "fst (store_Append empty_store (replicate 5000 0) failing_store_world) = Inl (OSError 5)
   \<and> st_size (fst (snd (store_Append empty_store (replicate 5000 0) failing_store_world))) = 0
   \<and> st_size (fst (snd (store_Append empty_store (bytes ''hello world'') store_world))) = 19
   \<and> fst (index_Write (snd (write_all fresh_index (replicate 85 (7, 9)))) 85 1020) = Some EOF
   \<and> snd (index_Write (snd (write_all fresh_index (replicate 85 (7, 9)))) 85 1020)
       = snd (write_all fresh_index (replicate 85 (7, 9)))"
proof -
  let ?A = "store_Append empty_store (replicate 5000 0) failing_store_world"
  let ?i = "snd (write_all fresh_index (replicate 85 (7, 9)))"
  have A: "?A = (Inl (OSError 5), fst (snd ?A), snd (snd ?A))"
    using store_Append_fails by (metis prod.collapse)
  have W: "fst (index_Write ?i 85 1020) = Some EOF"
    by (rule write_85(2)) simp
  then have W': "index_Write ?i 85 1020 = (Some EOF, snd (index_Write ?i 85 1020))"
    by (metis prod.collapse)
  from append_atomicity [where s = empty_store and p = "replicate 5000 0"
      and w = failing_store_world and e = "OSError 5" and s' = "fst (snd ?A)"
      and w' = "snd (snd ?A)" and i = ?i and off = 85 and pos = 1020 and e' = EOF
      and i' = "snd (index_Write ?i 85 1020)"] A W'
  have 1: "st_size (fst (snd ?A)) = st_size empty_store"
    and 2: "snd (index_Write ?i 85 1020) = ?i"
    by blast+
  from append_atomicity [where s = empty_store and p = "bytes ''hello world''"
      and w = store_world and r = "(19, 0)" and s' = store_hello and w' = store_world]
    store_Append_hello [of store_world]
  have 3: "st_size store_hello = st_size empty_store + 8 + of_nat (length (bytes ''hello world''))"
    by blast
  have e0: "st_size empty_store = 0" by (simp add: empty_store_def)
  show ?thesis
    using 1 2 3 store_Append_fails W
    by (simp add: store_Append_hello e0 length_bytes)
qed

section \<open>Further claims about the index\<close>

text \<open>
  Claim C7. On an index holding zero entries \<open>Read\<close> fails with \<open>io.EOF\<close> whatever the
  argument; an index freshly opened on an empty file holds zero entries, so there
  \<open>Read(-1)\<close> and \<open>Read(0)\<close> both fail with \<open>io.EOF\<close>.
\<close>

theorem index_Read_empty:
  "(idx_size i = 0 \<longrightarrow> index_Read i inp = Inl EOF)
   \<and> (newIndex f c w = (Inr i, w') \<and> files w f = Some [] \<longrightarrow>
        idx_size i = 0 \<and> index_Read i inp = Inl EOF
        \<and> index_Read i (- 1) = Inl EOF \<and> index_Read i 0 = Inl EOF)"
proof -
  have a: "index_Read j x = Inl EOF" if "idx_size j = 0" for j x
    using that by (simp add: index_Read_def)
  have b: "idx_size i = 0" if "newIndex f c w = (Inr i, w')" "files w f = Some []"
    using newIndex_result(1) [OF that] by simp
  show ?thesis using a b by blast
qed

text \<open>The theorem at the index \<open>TestIndex\<close> opens.\<close>

theorem index_Read_empty_witness:
  "idx_size fresh_index = 0 \<and> index_Read fresh_index (- 1) = Inl EOF
   \<and> index_Read fresh_index 0 = Inl EOF \<and> index_Read fresh_index 7 = Inl EOF"
  using index_Read_empty [of fresh_index "- 1"] index_Read_empty [of fresh_index 0]
    index_Read_empty [of fresh_index 7]
  by (simp add: fresh_index_def)

text \<open>
  Claim C8. An index is opened on a file whose length is a multiple of 12 and at most the
  configured capacity. Then, after opening and after any sequence of calls of \<open>Write\<close>,
  \<open>Read\<close>, \<open>Name\<close> and \<open>Close\<close>, the size is a multiple of 12 and at most the capacity,
  which is the length of the mapped region and the configured maximum.
\<close>

theorem index_size_invariant:
  assumes "newIndex f c w = (Inr i0, w0)" and "files w f = Some d"
    and "12 dvd length d" and "length d \<le> unat c"
  shows "index_inv (fst (foldl index_step (i0, w0) ops))
       \<and> 12 dvd unat (idx_size (fst (foldl index_step (i0, w0) ops)))
       \<and> unat (idx_size (fst (foldl index_step (i0, w0) ops)))
            \<le> length (idx_mmap (fst (foldl index_step (i0, w0) ops)))
       \<and> length (idx_mmap (fst (foldl index_step (i0, w0) ops))) = unat c"
proof -
  note n = newIndex_inv [OF assms]
  have a: "index_inv (fst (i0, w0))" using n(1) by simp
  have b: "length (idx_mmap (fst (i0, w0))) < 2 ^ 63" using n(2,3) by simp
  from index_run_inv [OF a b, of ops] n(2) show ?thesis
    by (simp add: index_inv_def)
qed

text \<open>The theorem at the index of \<open>TestIndex\<close> and a sequence of all four calls.\<close>

theorem index_size_invariant_witness:
  "idx_size (fst (foldl index_step (fresh_index, snd (newIndex ''index_test'' 1024 test_world))
      [OpRead (- 1), OpName, OpWrite 0 0, OpRead 0, OpWrite 1 10, OpClose, OpWrite 2 20])) = 36
   \<and> index_inv (fst (foldl index_step (fresh_index, snd (newIndex ''index_test'' 1024 test_world))
      [OpRead (- 1), OpName, OpWrite 0 0, OpRead 0, OpWrite 1 10, OpClose, OpWrite 2 20]))
   \<and> length (idx_mmap (fst (foldl index_step
        (fresh_index, snd (newIndex ''index_test'' 1024 test_world))
        [OpRead (- 1), OpName, OpWrite 0 0, OpRead 0, OpWrite 1 10, OpClose, OpWrite 2 20])))
        = 1024"
proof -
  have f0: "files test_world ''index_test'' = Some []" by (simp add: test_world_def)
  have d: "12 dvd length ([] :: byte list)" "length ([] :: byte list) \<le> unat (1024 :: uint64)"
    by simp_all
  note t = index_size_invariant [OF newIndex_test_world_pair f0 d,
      of "[OpRead (- 1), OpName, OpWrite 0 0, OpRead 0, OpWrite 1 10, OpClose, OpWrite 2 20]"]
  have w2: "index_Write two_entry_index 2 20 =
     (None, two_entry_index\<lparr>idx_mmap := take (unat (idx_size two_entry_index)) (idx_mmap two_entry_index)
         @ entry (2, 20) @ drop (unat (idx_size two_entry_index) + 12) (idx_mmap two_entry_index),
        idx_size := idx_size two_entry_index + 12\<rparr>)"
    by (subst index_Write_cases) (simp_all add: two_entry_index_def length_entry)
  have "idx_size (fst (foldl index_step (fresh_index, snd (newIndex ''index_test'' 1024 test_world))
      [OpRead (- 1), OpName, OpWrite 0 0, OpRead 0, OpWrite 1 10, OpClose, OpWrite 2 20])) = 36"
    by (simp add: index_Write_fresh index_Write_one w2) (simp add: two_entry_index_def)
  with t show ?thesis by simp
qed

text \<open>
  Claim C9, at the failing input. The index of \<open>TestIndex\<close> holds two entries and is
  closed while the truncation fails with error 5: \<open>Close\<close> has synced the mapping and the
  file, in this order, and attempted the truncation, yet it returns no error, the file is
  not closed and still has the 1024 bytes of the mapping.
\<close>

theorem index_Close_drops_truncate_error:
  "sched failing_truncate_world = [Succeeds, Succeeds, Fails 5 0]
   \<and> fst (index_Close two_entry_index failing_truncate_world) = None
   \<and> trace (snd (index_Close two_entry_index failing_truncate_world))
       = trace failing_truncate_world @
         [SysMsync ''index_test'', SysFsync ''index_test'', SysFtruncate ''index_test'' 24]
   \<and> files (snd (index_Close two_entry_index failing_truncate_world)) ''index_test''
       = Some (entry (0, 0) @ entry (1, 10) @ replicate 1000 0)"
  by (simp add: index_Close_def gommap_Sync_def File_Sync_def File_Truncate_def
        sys_def failing_truncate_world_def opened_world_def two_entry_index_def length_entry)

text \<open>
  Claim C10, amended. For every argument other than \<open>-1\<close>, \<open>Read\<close> uses the entry index
  \<open>in mod 2^32\<close>. So \<open>Read(2^32 + k)\<close> with entry \<open>k\<close> present succeeds and returns entry
  \<open>k\<close>, and an argument \<open>in\<close> with \<open>-2^32 < in < -1\<close> is treated as the entry index
  \<open>2^32 + in\<close>, failing with \<open>io.EOF\<close> on every index that holds at most \<open>2^32 + in\<close>
  entries.
\<close>

theorem index_Read_truncates:
  "(inp \<noteq> - 1 \<longrightarrow>
      index_Read i inp = index_Read i (ucast (ucast inp :: uint32))
      \<and> index_Read i inp = read_entry i (ucast inp)
      \<and> int (unat (ucast inp :: uint32)) = sint inp mod 2 ^ 32)
   \<and> (k < 2 ^ 32 \<and> 12 * k + 12 \<le> unat (idx_size i) \<and> unat (idx_size i) \<le> length (idx_mmap i) \<longrightarrow>
      index_Read i (2 ^ 32 + of_nat k) = index_Read i (of_nat k)
      \<and> index_Read i (2 ^ 32 + of_nat k)
          = Inr (Uint32 (take 4 (drop (12 * k) (idx_mmap i))),
                 Uint64 (take 8 (drop (12 * k + 4) (idx_mmap i)))))
   \<and> (- (2 ^ 32) < sint inp \<and> sint inp < - 1 \<longrightarrow>
      int (unat (ucast inp :: uint32)) = 2 ^ 32 + sint inp
      \<and> (int (unat (idx_size i)) < 12 * (2 ^ 32 + sint inp) + 12 \<longrightarrow> index_Read i inp = Inl EOF))"
proof -
  have a: "index_Read i x = read_entry i (ucast x)" if "x \<noteq> - 1" for x
    using that by (simp add: index_Read_entry)
  have a': "index_Read i inp = index_Read i (ucast (ucast inp :: uint32))" if "inp \<noteq> - 1"
    unfolding a [OF that] a [OF ucast_32_64_neq_minus1] ucast_32_64_32 ..
  have b: "index_Read i (2 ^ 32 + of_nat k) = index_Read i (of_nat k)
      \<and> index_Read i (2 ^ 32 + of_nat k)
          = Inr (Uint32 (take 4 (drop (12 * k) (idx_mmap i))),
                 Uint64 (take 8 (drop (12 * k + 4) (idx_mmap i))))"
    if "k < 2 ^ 32" "12 * k + 12 \<le> unat (idx_size i)" "unat (idx_size i) \<le> length (idx_mmap i)"
  proof -
    have u: "unat (ucast (of_nat k :: uint64) :: uint32) = k" by (rule ucast_of_nat_32 [OF that(1)])
    have nz: "idx_size i \<noteq> 0"
      using that(2) by (auto simp: unat_eq_0 [symmetric] simp del: unat_eq_0)
    have "index_Read i (2 ^ 32 + of_nat k) = read_entry i (ucast (of_nat k :: uint64))"
      using a [OF two_p32_plus_neq_minus1 [OF that(1)]] by (simp only: ucast_2p32_plus [OF that(1)])
    moreover have "index_Read i (of_nat k) = read_entry i (ucast (of_nat k :: uint64))"
      by (rule a [OF of_nat_neq_minus1 [OF that(1)]])
    moreover have "read_entry i (ucast (of_nat k :: uint64))
        = Inr (Uint32 (take 4 (drop (12 * k) (idx_mmap i))),
               Uint64 (take 8 (drop (12 * k + 4) (idx_mmap i))))"
      using that nz by (simp add: read_entry_def u)
    ultimately show ?thesis by simp
  qed
  have c: "int (unat (ucast inp :: uint32)) = 2 ^ 32 + sint inp
      \<and> (int (unat (idx_size i)) < 12 * (2 ^ 32 + sint inp) + 12 \<longrightarrow> index_Read i inp = Inl EOF)"
    if "- (2 ^ 32) < sint inp" "sint inp < - 1"
  proof -
    have "sint inp mod 2 ^ 32 = (sint inp + 2 ^ 32) mod 2 ^ 32" by simp
    also have "\<dots> = sint inp + 2 ^ 32"
      using that by (intro mod_pos_pos_trivial) simp_all
    finally have md: "sint inp mod 2 ^ 32 = sint inp + 2 ^ 32" .
    have m: "int (unat (ucast inp :: uint32)) = 2 ^ 32 + sint inp"
      unfolding int_unat_ucast_sint md by simp
    have ne: "inp \<noteq> - 1" using that(2) by auto
    have "index_Read i inp = Inl EOF" if lt: "int (unat (idx_size i)) < 12 * (2 ^ 32 + sint inp) + 12"
    proof -
      have "int (unat (idx_size i)) < int (12 * unat (ucast inp :: uint32) + 12)"
        using lt m by simp
      then have "unat (idx_size i) < 12 * unat (ucast inp :: uint32) + 12"
        by (simp only: of_nat_less_iff)
      then show ?thesis unfolding a [OF ne] by (rule read_entry_beyond)
    qed
    with m show ?thesis by simp
  qed
  show ?thesis using a [of inp] a' b c int_unat_ucast_sint [of inp] by blast
qed

text \<open>The theorem at the index holding one entry.\<close>

theorem index_Read_truncates_witness:
  "index_Read one_entry_index 5 = Inl EOF
   \<and> index_Read one_entry_index (2 ^ 32 + of_nat 0) = index_Read one_entry_index (of_nat 0)
   \<and> index_Read one_entry_index (- 2) = Inl EOF"
proof -
  have h0: "(0 :: nat) < 2 ^ 32" by simp
  have h1: "12 * 0 + 12 \<le> unat (idx_size one_entry_index)"
    "unat (idx_size one_entry_index) \<le> length (idx_mmap one_entry_index)"
    by (simp_all add: one_entry_index_def length_entry)
  have h2: "- (2 ^ 32) < sint (- 2 :: int64)" "sint (- 2 :: int64) < - 1"
    "int (unat (idx_size one_entry_index)) < 12 * (2 ^ 32 + sint (- 2 :: int64)) + 12"
    by (simp_all add: one_entry_index_def)
  have h3: "(5 :: int64) \<noteq> - 1" by simp
  have r5: "read_entry one_entry_index (ucast (5 :: int64)) = Inl EOF"
    by (simp add: read_entry_def one_entry_index_def)
  note T5 = index_Read_truncates [where inp = 5 and i = one_entry_index and k = 0]
  note T2 = index_Read_truncates [where inp = "- 2" and i = one_entry_index and k = 0]
  have A: "index_Read one_entry_index 5 = Inl EOF"
    using T5 h3 r5 by metis
  have B: "index_Read one_entry_index (2 ^ 32 + of_nat 0) = index_Read one_entry_index (of_nat 0)"
    using T5 h0 h1 by blast
  have C: "index_Read one_entry_index (- 2) = Inl EOF"
    using T2 h2 by blast
  from A B C show ?thesis by (intro conjI)
qed

text \<open>
  Claim C10 as stated fails for negative multiples of \<open>2^32\<close>: the negative argument
  \<open>-2^32\<close> is treated as entry index 0, not as a large one, and on the index holding one
  entry \<open>Read(-2^32)\<close> returns that entry instead of failing with \<open>io.EOF\<close>.
\<close>

theorem index_Read_negative_counterexample:
  "fst (newIndex ''index_test'' 1024 test_world) = Inr fresh_index
   \<and> index_Write fresh_index 0 0 = (None, one_entry_index)
   \<and> sint (- 4294967296 :: int64) < 0
   \<and> (- 4294967296 :: int64) \<noteq> - 1
   \<and> (ucast (- 4294967296 :: int64) :: uint32) = 0
   \<and> index_Read one_entry_index (- 4294967296) = Inr (0, 0)
   \<and> index_Read one_entry_index (- 4294967296) \<noteq> Inl EOF"
  by (simp add: newIndex_test_world index_Write_fresh index_Read_entry read_entry_def
        one_entry_index_def length_entry entry_def Uint32_PutUint32 Uint64_PutUint64
        length_PutUint32 length_PutUint64)

end
